theory Spec2Isabelle
  imports Complex_Main "HOL-Library.Multiset"
begin

section \<open>Tokens (parser.py)\<close>

text \<open>
  The enumeration \<^verbatim>\<open>TokenType\<close> and the class \<^verbatim>\<open>Token\<close> of parser.py. The three
  attributes \<^verbatim>\<open>type\<close>, \<^verbatim>\<open>value\<close> and \<^verbatim>\<open>position\<close> carry the prefix \<open>tok_\<close> here.
\<close>

datatype TokenType =
  NUMBER | VARIABLE | OPERATOR | FUNCTION | LEFT_PAREN | RIGHT_PAREN | COMMA | CONSTANT | EOF

record Token =
  tok_type :: TokenType
  tok_value :: string
  tok_position :: nat

definition mk_token :: "TokenType \<Rightarrow> string \<Rightarrow> nat \<Rightarrow> Token" where
  "mk_token t v p = \<lparr>tok_type = t, tok_value = v, tok_position = p\<rparr>"

datatype associativity = left | right

text \<open>The tables of \<^verbatim>\<open>MathParser.__init__\<close>: operator descriptors, function names, constant names.\<close>

definition parser_operators :: "string \<rightharpoonup> nat \<times> associativity" where
  "parser_operators = [''+'' \<mapsto> (1, left), ''-'' \<mapsto> (1, left), ''*'' \<mapsto> (2, left),
                ''/'' \<mapsto> (2, left), ''^'' \<mapsto> (3, right), ''**'' \<mapsto> (3, right)]"

definition parser_functions :: "string list" where
  "parser_functions = [''sin'', ''cos'', ''tan'', ''asin'', ''acos'', ''atan'',
                ''sinh'', ''cosh'', ''tanh'', ''ln'', ''log'', ''exp'',
                ''sqrt'', ''abs'', ''floor'', ''ceil'', ''round'',
                ''derivative'', ''integral'', ''diff'', ''int'']"

definition parser_constants :: "string list" where
  "parser_constants = [''pi'', ''e'', ''phi'', ''gamma'', ''inf'', ''nan'']"

section \<open>Character classes of Python's str\<close>

text \<open>
  A Python string is a sequence of code points. The model's \<open>string\<close> holds the code
  points below 256, one \<open>char\<close> each, so an index into the list is the index Python uses.
  \<open>isdigit\<close>, \<open>isalpha\<close>, \<open>isalnum\<close> and \<open>lower\<close> are Python's \<^verbatim>\<open>str.isdigit\<close>,
  \<^verbatim>\<open>str.isalpha\<close>, \<^verbatim>\<open>str.isalnum\<close> and \<^verbatim>\<open>str.lower\<close> on that range: besides the ASCII
  digits the superscripts U+00B2, U+00B3, U+00B9 are digits; the letters are A-Z, a-z,
  U+00AA, U+00B5, U+00BA, U+00C0-U+00D6, U+00D8-U+00F6, U+00F8-U+00FF; the fractions
  U+00BC-U+00BE are numeric, hence alphanumeric.
\<close>

definition isdigit :: "char \<Rightarrow> bool" where
  "isdigit c = (let n = (of_char c :: nat) in
     (48 \<le> n \<and> n \<le> 57) \<or> n = 178 \<or> n = 179 \<or> n = 185)"

definition isalpha :: "char \<Rightarrow> bool" where
  "isalpha c = (let n = (of_char c :: nat) in
     (65 \<le> n \<and> n \<le> 90) \<or> (97 \<le> n \<and> n \<le> 122) \<or> n = 170 \<or> n = 181 \<or> n = 186 \<or>
     (192 \<le> n \<and> n \<le> 214) \<or> (216 \<le> n \<and> n \<le> 246) \<or> (248 \<le> n \<and> n \<le> 255))"

definition isalnum :: "char \<Rightarrow> bool" where
  "isalnum c = (let n = (of_char c :: nat) in
     isalpha c \<or> isdigit c \<or> (188 \<le> n \<and> n \<le> 190))"

definition lower :: "char \<Rightarrow> char" where
  "lower c = (let n = (of_char c :: nat) in
     if (65 \<le> n \<and> n \<le> 90) \<or> (192 \<le> n \<and> n \<le> 214) \<or> (216 \<le> n \<and> n \<le> 222)
     then char_of (n + 32) else c)"

text \<open>The slice \<^verbatim>\<open>expression[start:end]\<close> for \<open>start \<le> end\<close>.\<close>

definition slice :: "string \<Rightarrow> nat \<Rightarrow> nat \<Rightarrow> string" where
  "slice expression start end = take (end - start) (drop start expression)"

section \<open>The tokenizer (parser.py, \<^verbatim>\<open>MathParser.tokenize\<close>)\<close>

text \<open>
  \<open>scan_while P expression end\<close> is the loop
  \<^verbatim>\<open>while end < len(expression) and P(expression[end]): end += 1\<close>, which occurs in
  \<^verbatim>\<open>_parse_identifier\<close> and, for the digits of an exponent, in \<^verbatim>\<open>_parse_number\<close>.
\<close>

function scan_while :: "(char \<Rightarrow> bool) \<Rightarrow> string \<Rightarrow> nat \<Rightarrow> nat" where
  "scan_while P expression end =
     (if end < length expression \<and> P (expression ! end)
      then scan_while P expression (end + 1) else end)"
  by pat_completeness auto
termination
  by (relation "measure (\<lambda>(P, expression, end). length expression - end)") auto

declare scan_while.simps [simp del]

text \<open>The outer loop of \<^verbatim>\<open>_parse_number\<close>, with its two locals \<open>end\<close> and \<open>has_decimal\<close>.\<close>

function parse_number_loop :: "string \<Rightarrow> nat \<Rightarrow> bool \<Rightarrow> nat" where
  "parse_number_loop expression end has_decimal =
     (if end < length expression then
        (let char = expression ! end in
         if isdigit char then parse_number_loop expression (end + 1) has_decimal
         else if char = CHR ''.'' \<and> \<not> has_decimal then parse_number_loop expression (end + 1) True
         else if lower char = CHR ''e'' \<and> end + 1 < length expression then
           (let end1 = end + 1;
                end2 = (if end1 < length expression \<and> expression ! end1 \<in> set ''+-''
                        then end1 + 1 else end1)
            in scan_while isdigit expression end2)
         else end)
      else end)"
  by pat_completeness auto
termination
  by (relation "measure (\<lambda>(expression, end, has_decimal). length expression - end)") auto

declare parse_number_loop.simps [simp del]

definition parse_number :: "string \<Rightarrow> nat \<Rightarrow> string \<times> nat" where
  "parse_number expression start =
     (let end = parse_number_loop expression start False
      in (slice expression start end, end))"

definition parse_identifier :: "string \<Rightarrow> nat \<Rightarrow> string \<times> nat" where
  "parse_identifier expression start =
     (let end = scan_while (\<lambda>c. isalnum c \<or> c = CHR ''_'') expression start
      in (slice expression start end, end))"

lemma scan_while_continue:
  "end < length expression \<Longrightarrow> P (expression ! end) \<Longrightarrow>
   scan_while P expression end = scan_while P expression (end + 1)"
  by (subst scan_while.simps) simp

lemma scan_while_stop:
  "\<not> (end < length expression \<and> P (expression ! end)) \<Longrightarrow> scan_while P expression end = end"
  by (subst scan_while.simps) auto

lemma scan_while_ge: "end \<le> scan_while P expression end"
proof (induction P expression "end" rule: scan_while.induct)
  case (1 P expression "end")
  show ?case
  proof (cases "end < length expression \<and> P (expression ! end)")
    case True
    with 1 show ?thesis by (simp add: scan_while_continue)
  next
    case False
    from scan_while_stop [of "end" expression P, OF False] show ?thesis by simp
  qed
qed

lemma scan_while_le: "end \<le> length expression \<Longrightarrow> scan_while P expression end \<le> length expression"
proof (induction P expression "end" rule: scan_while.induct)
  case (1 P expression "end")
  show ?case
  proof (cases "end < length expression \<and> P (expression ! end)")
    case True
    with 1 show ?thesis by (simp add: scan_while_continue)
  next
    case False
    from scan_while_stop [of "end" expression P, OF False] 1(2) show ?thesis by simp
  qed
qed

lemma scan_while_step:
  "end < length expression \<Longrightarrow> P (expression ! end) \<Longrightarrow> end < scan_while P expression end"
  using scan_while_ge [of "end + 1" P expression]
  by (simp add: scan_while_continue)

lemma parse_number_loop_ge: "end \<le> parse_number_loop expression end has_decimal"
proof (induction expression "end" has_decimal rule: parse_number_loop.induct)
  case (1 expression "end" has_decimal)
  show ?case
  proof (cases "end < length expression")
    case False
    then show ?thesis by (subst parse_number_loop.simps) simp
  next
    case True
    note lt = True
    show ?thesis
    proof (cases "isdigit (expression ! end)")
      case True
      with lt 1(1) show ?thesis by (subst parse_number_loop.simps) (simp add: Let_def)
    next
      case False
      note nd = False
      show ?thesis
      proof (cases "expression ! end = CHR ''.'' \<and> \<not> has_decimal")
        case True
        with lt nd 1(2) show ?thesis by (subst parse_number_loop.simps) (simp add: Let_def)
      next
        case False
        have "end \<le> scan_while isdigit expression (end + 1)"
          using scan_while_ge [of "end + 1" isdigit expression] by simp
        moreover have "end \<le> scan_while isdigit expression (end + 1 + 1)"
          using scan_while_ge [of "end + 1 + 1" isdigit expression] by simp
        ultimately show ?thesis
          using lt nd False by (subst parse_number_loop.simps) (auto simp: Let_def)
      qed
    qed
  qed
qed

lemma parse_number_loop_le:
  "end \<le> length expression \<Longrightarrow> parse_number_loop expression end has_decimal \<le> length expression"
proof (induction expression "end" has_decimal rule: parse_number_loop.induct)
  case (1 expression "end" has_decimal)
  show ?case
  proof (cases "end < length expression")
    case False
    with 1(3) show ?thesis by (subst parse_number_loop.simps) simp
  next
    case True
    note lt = True
    show ?thesis
    proof (cases "isdigit (expression ! end)")
      case True
      with lt 1(1) show ?thesis by (subst parse_number_loop.simps) (simp add: Let_def)
    next
      case False
      note nd = False
      show ?thesis
      proof (cases "expression ! end = CHR ''.'' \<and> \<not> has_decimal")
        case True
        with lt nd 1(2) show ?thesis by (subst parse_number_loop.simps) (simp add: Let_def)
      next
        case False
        show ?thesis
          using lt nd False by (subst parse_number_loop.simps) (auto simp: Let_def intro: scan_while_le)
      qed
    qed
  qed
qed

lemma parse_number_loop_step:
  assumes "start < length expression"
    and "isdigit (expression ! start) \<or> expression ! start = CHR ''.''"
  shows "start < parse_number_loop expression start False"
proof (cases "isdigit (expression ! start)")
  case True
  with assms(1) parse_number_loop_ge [of "start + 1" expression False] show ?thesis
    by (subst parse_number_loop.simps) (simp add: Let_def)
next
  case False
  with assms parse_number_loop_ge [of "start + 1" expression True] show ?thesis
    by (subst parse_number_loop.simps) (simp add: Let_def)
qed

text \<open>
  The main loop of \<^verbatim>\<open>tokenize\<close>, run on the expression from which the spaces are
  already removed; \<open>tokens\<close> is the list built so far.
\<close>

function tokenize_loop :: "string \<Rightarrow> nat \<Rightarrow> Token list \<Rightarrow> Token list" where
  "tokenize_loop expression position tokens =
     (if position < length expression then
        (let char = expression ! position in
         if isdigit char \<or> char = CHR ''.'' then
           (case parse_number expression position of (number, new_pos) \<Rightarrow>
              tokenize_loop expression new_pos (tokens @ [mk_token NUMBER number position]))
         else if isalpha char then
           (case parse_identifier expression position of (identifier, new_pos) \<Rightarrow>
              if identifier \<in> set parser_functions then
                tokenize_loop expression new_pos (tokens @ [mk_token FUNCTION identifier position])
              else if identifier \<in> set parser_constants then
                tokenize_loop expression new_pos (tokens @ [mk_token CONSTANT identifier position])
              else
                tokenize_loop expression new_pos (tokens @ [mk_token VARIABLE identifier position]))
         else if char \<in> set ''+-*/^'' then
           (if char = CHR ''*'' \<and> position + 1 < length expression
               \<and> expression ! (position + 1) = CHR ''*''
            then tokenize_loop expression (position + 2) (tokens @ [mk_token OPERATOR ''**'' position])
            else tokenize_loop expression (position + 1) (tokens @ [mk_token OPERATOR [char] position]))
         else if char = CHR ''('' then
           tokenize_loop expression (position + 1) (tokens @ [mk_token LEFT_PAREN [char] position])
         else if char = CHR '')'' then
           tokenize_loop expression (position + 1) (tokens @ [mk_token RIGHT_PAREN [char] position])
         else if char = CHR '','' then
           tokenize_loop expression (position + 1) (tokens @ [mk_token COMMA [char] position])
         else tokenize_loop expression (position + 1) tokens)
      else tokens @ [mk_token EOF '''' position])"
  by pat_completeness auto
termination
proof (relation "measure (\<lambda>(expression, position, tokens). length expression - position)")
  show "wf (measure (\<lambda>(expression, position, tokens). length expression - position))"
    by simp
next
  fix expression :: string and position :: nat and tokens :: "Token list"
    and char x y
  assume "position < length expression" "char = expression ! position"
    "isdigit char \<or> char = CHR ''.''" "(x, y) = parse_number expression position"
  then show "((expression, y, tokens @ [mk_token NUMBER x position]), expression, position, tokens)
      \<in> measure (\<lambda>(expression, position, tokens). length expression - position)"
    using parse_number_loop_step [of position expression]
    by (auto simp: parse_number_def Let_def)
qed (auto simp: parse_identifier_def Let_def isalnum_def
      intro!: diff_less_mono2 scan_while_step)

declare tokenize_loop.simps [simp del]

definition tokenize :: "string \<Rightarrow> Token list" where
  "tokenize expression = tokenize_loop (filter (\<lambda>c. c \<noteq> CHR '' '') expression) 0 []"

section \<open>The syntax validator (parser.py, \<^verbatim>\<open>MathParser.validate_syntax\<close>)\<close>

text \<open>
  \<^verbatim>\<open>validate_syntax\<close> returns a pair \<^verbatim>\<open>(is_valid, error_message)\<close>. The model returns
  \<open>None\<close> for \<^verbatim>\<open>(True, "")\<close> and \<open>Some e\<close> for \<^verbatim>\<open>(False, message)\<close>, where \<open>e\<close> names
  the message and carries the position printed in it:
  \<^item> \<open>EmptyExpression\<close>: "Empty expression";
  \<^item> \<open>UnmatchedClosing p\<close>: "Unmatched closing parenthesis at position p";
  \<^item> \<open>ConsecutiveOperators p\<close>: "Consecutive operators at position p";
  \<^item> \<open>InvalidFunctionCall p\<close>: "Invalid function call at position p";
  \<^item> \<open>UnmatchedParentheses\<close>: "Unmatched parentheses";
  \<^item> \<open>EndsWithOperator\<close>: "Expression cannot end with an operator".
\<close>

datatype syntax_error =
    EmptyExpression
  | UnmatchedClosing nat
  | ConsecutiveOperators nat
  | InvalidFunctionCall nat
  | UnmatchedParentheses
  | EndsWithOperator

text \<open>
  The \<^verbatim>\<open>for\<close> loop of \<^verbatim>\<open>validate_syntax\<close> with its locals \<open>paren_count\<close> and
  \<open>prev_token\<close> (\<open>None\<close> before the first token). It ends with \<open>Inl\<close> at a
  \<^verbatim>\<open>return False, ...\<close> inside the loop, and with \<open>Inr\<close> of the locals when the loop is
  left at the end of the list or by \<^verbatim>\<open>break\<close> at an EOF token.
\<close>

fun validate_loop :: "Token list \<Rightarrow> int \<Rightarrow> Token option \<Rightarrow> syntax_error + int \<times> Token option" where
  "validate_loop [] paren_count prev_token = Inr (paren_count, prev_token)"
| "validate_loop (token # tokens) paren_count prev_token =
     (if tok_type token = EOF then Inr (paren_count, prev_token)
      else
        (let paren_count' =
           (if tok_type token = LEFT_PAREN then paren_count + 1
            else if tok_type token = RIGHT_PAREN then paren_count - 1
            else paren_count)
         in
         if tok_type token = RIGHT_PAREN \<and> paren_count' < 0 then
           Inl (UnmatchedClosing (tok_position token))
         else if (case prev_token of None \<Rightarrow> False | Some prev \<Rightarrow> tok_type prev = OPERATOR)
                 \<and> tok_type token = OPERATOR then
           Inl (ConsecutiveOperators (tok_position token))
         else if tok_type token = FUNCTION
                 \<and> (case prev_token of None \<Rightarrow> False
                     | Some prev \<Rightarrow> tok_type prev \<notin> {OPERATOR, LEFT_PAREN, COMMA}) then
           Inl (InvalidFunctionCall (tok_position token))
         else validate_loop tokens paren_count' (Some token)))"

definition validate_syntax :: "Token list \<Rightarrow> syntax_error option" where
  "validate_syntax tokens =
     (if tokens = [] \<or> tok_type (hd tokens) = EOF then Some EmptyExpression
      else
        (case validate_loop tokens 0 None of
           Inl e \<Rightarrow> Some e
         | Inr (paren_count, prev_token) \<Rightarrow>
             if paren_count \<noteq> 0 then Some UnmatchedParentheses
             else if (case prev_token of None \<Rightarrow> False | Some prev \<Rightarrow> tok_type prev = OPERATOR)
             then Some EndsWithOperator
             else None))"

section \<open>The converter to postfix (parser.py, \<^verbatim>\<open>MathParser.parse_to_postfix\<close>)\<close>

definition has_higher_precedence :: "Token \<Rightarrow> Token \<Rightarrow> bool" where
  "has_higher_precedence op1 op2 =
     (case (parser_operators (tok_value op1), parser_operators (tok_value op2)) of
        (Some (prec1, assoc1), Some (prec2, assoc2)) \<Rightarrow>
          prec1 > prec2 \<or> (prec1 = prec2 \<and> assoc2 = left)
      | _ \<Rightarrow> False)"

text \<open>
  The Python list \<^verbatim>\<open>operator_stack\<close> grows and shrinks at its end; the model keeps it
  with the top first, so \<^verbatim>\<open>operator_stack[-1]\<close> is the head, \<^verbatim>\<open>append\<close> is \<open>#\<close> and
  \<^verbatim>\<open>pop()\<close> takes the head off. Each of the two inner \<^verbatim>\<open>while\<close> loops returns the
  output and the stack it leaves.
\<close>

fun pop_until_left_paren :: "Token list \<Rightarrow> Token list \<Rightarrow> Token list \<times> Token list" where
  "pop_until_left_paren output [] = (output, [])"
| "pop_until_left_paren output (top_token # operator_stack) =
     (if tok_type top_token \<noteq> LEFT_PAREN then pop_until_left_paren (output @ [top_token]) operator_stack
      else (output, top_token # operator_stack))"

fun pop_operators :: "Token \<Rightarrow> Token list \<Rightarrow> Token list \<Rightarrow> Token list \<times> Token list" where
  "pop_operators token output [] = (output, [])"
| "pop_operators token output (top_token # operator_stack) =
     (if tok_type top_token = OPERATOR \<and> has_higher_precedence top_token token
      then pop_operators token (output @ [top_token]) operator_stack
      else (output, top_token # operator_stack))"

fun postfix_loop :: "Token list \<Rightarrow> Token list \<Rightarrow> Token list \<Rightarrow> Token list \<times> Token list" where
  "postfix_loop [] output operator_stack = (output, operator_stack)"
| "postfix_loop (token # tokens) output operator_stack =
     (case tok_type token of
        EOF \<Rightarrow> (output, operator_stack)
      | NUMBER \<Rightarrow> postfix_loop tokens (output @ [token]) operator_stack
      | VARIABLE \<Rightarrow> postfix_loop tokens (output @ [token]) operator_stack
      | CONSTANT \<Rightarrow> postfix_loop tokens (output @ [token]) operator_stack
      | FUNCTION \<Rightarrow> postfix_loop tokens output (token # operator_stack)
      | COMMA \<Rightarrow>
          (case pop_until_left_paren output operator_stack of
             (output', stack') \<Rightarrow> postfix_loop tokens output' stack')
      | OPERATOR \<Rightarrow>
          (case pop_operators token output operator_stack of
             (output', stack') \<Rightarrow> postfix_loop tokens output' (token # stack'))
      | LEFT_PAREN \<Rightarrow> postfix_loop tokens output (token # operator_stack)
      | RIGHT_PAREN \<Rightarrow>
          (case pop_until_left_paren output operator_stack of
             (output', stack') \<Rightarrow>
               (let stack'' = (case stack' of [] \<Rightarrow> [] | paren # rest \<Rightarrow> rest) in
                case stack'' of
                  [] \<Rightarrow> postfix_loop tokens output' stack''
                | top_token # rest \<Rightarrow>
                    if tok_type top_token = FUNCTION then postfix_loop tokens (output' @ [top_token]) rest
                    else postfix_loop tokens output' stack'')))"

text \<open>The last loop pops what is left on the stack, top first, onto the output.\<close>

definition parse_to_postfix :: "Token list \<Rightarrow> Token list" where
  "parse_to_postfix tokens =
     (case postfix_loop tokens [] [] of (output, operator_stack) \<Rightarrow> output @ operator_stack)"

section \<open>Python's numbers\<close>

subsection \<open>Doubles\<close>

text \<open>
  A Python \<^verbatim>\<open>float\<close> is an IEEE 754 binary64 value. \<open>Fin x\<close> is the finite double whose
  value is the real number \<open>x\<close>; the two zeros are one value \<open>Fin 0\<close>. Whether an operation
  raises and the type of its result do not depend on the sign of a zero: a division by
  either zero raises, and so does a negative power of either. The value of a result can
  depend on it, through \<^verbatim>\<open>atan2\<close> in a complex power: there the model gives the value for
  the zero \<^verbatim>\<open>0.0\<close>, and nothing is stated below about a value computed from \<^verbatim>\<open>-0.0\<close>.
  \<open>to_double\<close> rounds a real number
  to the nearest double, ties to even, with the subnormal range and the overflow to an
  infinity; every arithmetic result below is the exact result passed through it. For
  \<^verbatim>\<open>+ - * /\<close>, \<^verbatim>\<open>sqrt\<close> and the conversion of a decimal literal that is what the
  hardware and CPython compute; for the other functions of the C library it is the result
  of a correctly rounding library.
\<close>

datatype pyfloat = Fin real | PInf | NInf | NaN

definition round_half_even :: "real \<Rightarrow> int" where
  "round_half_even y =
     (let f = \<lfloor>y\<rfloor>; d = y - of_int f
      in if d < 1 / 2 then f else if d > 1 / 2 then f + 1 else if even f then f else f + 1)"

text \<open>
  The exponent of the unit in the last place at \<open>x \<noteq> 0\<close>: 52 below the binary exponent of
  \<open>x\<close>, and never below that of the smallest subnormal, \<open>2 ^ - 1074\<close>.
\<close>

definition ulp_exponent :: "real \<Rightarrow> int" where
  "ulp_exponent x = max (\<lfloor>log 2 \<bar>x\<bar>\<rfloor> - 52) (- 1074)"

definition to_double :: "real \<Rightarrow> pyfloat" where
  "to_double x =
     (if x = 0 then Fin 0
      else
        (let q = 2 powr of_int (ulp_exponent x);
             r = of_int (round_half_even (x / q)) * q
         in if 2 ^ 1024 \<le> r then PInf else if r \<le> - (2 ^ 1024) then NInf else Fin r))"

definition isnan :: "pyfloat \<Rightarrow> bool" where
  "isnan x = (x = NaN)"

definition isinf :: "pyfloat \<Rightarrow> bool" where
  "isinf x = (x = PInf \<or> x = NInf)"

definition isfinite :: "pyfloat \<Rightarrow> bool" where
  "isfinite x = (case x of Fin r \<Rightarrow> True | _ \<Rightarrow> False)"

text \<open>The comparisons \<^verbatim>\<open>==\<close> and \<^verbatim>\<open><\<close> of doubles: false when an operand is a NaN.\<close>

fun feq :: "pyfloat \<Rightarrow> pyfloat \<Rightarrow> bool" where
  "feq NaN y = False"
| "feq x NaN = False"
| "feq x y = (x = y)"

fun flt :: "pyfloat \<Rightarrow> pyfloat \<Rightarrow> bool" where
  "flt NaN y = False"
| "flt x NaN = False"
| "flt PInf y = False"
| "flt x NInf = False"
| "flt NInf y = True"
| "flt x PInf = True"
| "flt (Fin x) (Fin y) = (x < y)"

definition fle :: "pyfloat \<Rightarrow> pyfloat \<Rightarrow> bool" where
  "fle x y = (flt x y \<or> feq x y)"

fun fneg :: "pyfloat \<Rightarrow> pyfloat" where
  "fneg (Fin x) = Fin (- x)"
| "fneg PInf = NInf"
| "fneg NInf = PInf"
| "fneg NaN = NaN"

fun fabs :: "pyfloat \<Rightarrow> pyfloat" where
  "fabs (Fin x) = Fin \<bar>x\<bar>"
| "fabs PInf = PInf"
| "fabs NInf = PInf"
| "fabs NaN = NaN"

fun fadd :: "pyfloat \<Rightarrow> pyfloat \<Rightarrow> pyfloat" where
  "fadd NaN y = NaN"
| "fadd x NaN = NaN"
| "fadd PInf NInf = NaN"
| "fadd NInf PInf = NaN"
| "fadd PInf y = PInf"
| "fadd NInf y = NInf"
| "fadd x PInf = PInf"
| "fadd x NInf = NInf"
| "fadd (Fin x) (Fin y) = to_double (x + y)"

definition fsub :: "pyfloat \<Rightarrow> pyfloat \<Rightarrow> pyfloat" where
  "fsub x y = fadd x (fneg y)"

text \<open>The infinity with the sign of the product (or quotient) of two signs.\<close>

definition signed_inf :: "bool \<Rightarrow> pyfloat" where
  "signed_inf negative = (if negative then NInf else PInf)"

definition is_negative :: "pyfloat \<Rightarrow> bool" where
  "is_negative x = flt x (Fin 0)"

fun fmul :: "pyfloat \<Rightarrow> pyfloat \<Rightarrow> pyfloat" where
  "fmul NaN y = NaN"
| "fmul x NaN = NaN"
| "fmul (Fin x) (Fin y) = to_double (x * y)"
| "fmul x y =
     (if x = Fin 0 \<or> y = Fin 0 then NaN else signed_inf (is_negative x \<noteq> is_negative y))"

text \<open>
  The division of the hardware, also by zero (where Python's \<^verbatim>\<open>/\<close> never gets: see
  \<open>float_div\<close>); a zero divisor counts as positive.
\<close>

fun fdiv :: "pyfloat \<Rightarrow> pyfloat \<Rightarrow> pyfloat" where
  "fdiv NaN y = NaN"
| "fdiv x NaN = NaN"
| "fdiv (Fin x) (Fin y) =
     (if y = 0 then (if x = 0 then NaN else signed_inf (x < 0)) else to_double (x / y))"
| "fdiv (Fin x) y = Fin 0"
| "fdiv x (Fin y) = signed_inf (is_negative x \<noteq> (y < 0))"
| "fdiv x y = NaN"

subsection \<open>The C library on doubles\<close>

text \<open>
  The functions of the C library that CPython calls, with the values C99 (Annex F) fixes at
  the infinities and at NaN, and a NaN where the argument is outside the domain.
\<close>

fun c_sqrt :: "pyfloat \<Rightarrow> pyfloat" where
  "c_sqrt (Fin x) = (if x < 0 then NaN else to_double (sqrt x))"
| "c_sqrt PInf = PInf"
| "c_sqrt NInf = NaN"
| "c_sqrt NaN = NaN"

fun c_exp :: "pyfloat \<Rightarrow> pyfloat" where
  "c_exp (Fin x) = to_double (exp x)"
| "c_exp PInf = PInf"
| "c_exp NInf = Fin 0"
| "c_exp NaN = NaN"

fun c_sin :: "pyfloat \<Rightarrow> pyfloat" where
  "c_sin (Fin x) = to_double (sin x)"
| "c_sin x = NaN"

fun c_cos :: "pyfloat \<Rightarrow> pyfloat" where
  "c_cos (Fin x) = to_double (cos x)"
| "c_cos x = NaN"

fun c_tan :: "pyfloat \<Rightarrow> pyfloat" where
  "c_tan (Fin x) = to_double (tan x)"
| "c_tan x = NaN"

fun c_asin :: "pyfloat \<Rightarrow> pyfloat" where
  "c_asin (Fin x) = (if \<bar>x\<bar> \<le> 1 then to_double (arcsin x) else NaN)"
| "c_asin x = NaN"

fun c_acos :: "pyfloat \<Rightarrow> pyfloat" where
  "c_acos (Fin x) = (if \<bar>x\<bar> \<le> 1 then to_double (arccos x) else NaN)"
| "c_acos x = NaN"

fun c_atan :: "pyfloat \<Rightarrow> pyfloat" where
  "c_atan (Fin x) = to_double (arctan x)"
| "c_atan PInf = to_double (pi / 2)"
| "c_atan NInf = to_double (- pi / 2)"
| "c_atan NaN = NaN"

fun c_sinh :: "pyfloat \<Rightarrow> pyfloat" where
  "c_sinh (Fin x) = to_double (sinh x)"
| "c_sinh x = x"

fun c_cosh :: "pyfloat \<Rightarrow> pyfloat" where
  "c_cosh (Fin x) = to_double (cosh x)"
| "c_cosh NaN = NaN"
| "c_cosh x = PInf"

fun c_tanh :: "pyfloat \<Rightarrow> pyfloat" where
  "c_tanh (Fin x) = to_double (tanh x)"
| "c_tanh PInf = Fin 1"
| "c_tanh NInf = Fin (- 1)"
| "c_tanh NaN = NaN"

text \<open>\<open>log\<close> and \<open>log10\<close> of the C library: minus infinity at zero, NaN below.\<close>

fun c_log :: "pyfloat \<Rightarrow> pyfloat" where
  "c_log (Fin x) = (if x > 0 then to_double (ln x) else if x = 0 then NInf else NaN)"
| "c_log PInf = PInf"
| "c_log x = NaN"

fun c_log10 :: "pyfloat \<Rightarrow> pyfloat" where
  "c_log10 (Fin x) = (if x > 0 then to_double (log 10 x) else if x = 0 then NInf else NaN)"
| "c_log10 PInf = PInf"
| "c_log10 x = NaN"

fun c_hypot :: "pyfloat \<Rightarrow> pyfloat \<Rightarrow> pyfloat" where
  "c_hypot (Fin x) (Fin y) = to_double (sqrt (x * x + y * y))"
| "c_hypot x y = (if isinf x \<or> isinf y then PInf else NaN)"

text \<open>\<open>DOUBLE_IS_ODD_INTEGER\<close> of floatobject.c: \<^verbatim>\<open>fmod(fabs(x), 2.0) == 1.0\<close>.\<close>

definition is_odd_integer :: "pyfloat \<Rightarrow> bool" where
  "is_odd_integer x = (case x of Fin r \<Rightarrow> of_int \<lfloor>r\<rfloor> = r \<and> odd \<lfloor>r\<rfloor> | _ \<Rightarrow> False)"

definition is_integer :: "real \<Rightarrow> bool" where
  "is_integer r = (of_int \<lfloor>r\<rfloor> = r)"

text \<open>\<open>pow\<close> of the C library (C99 F.9.4.4).\<close>

definition c_pow :: "pyfloat \<Rightarrow> pyfloat \<Rightarrow> pyfloat" where
  "c_pow x y =
     (if y = Fin 0 \<or> x = Fin 1 then Fin 1
      else if x = NaN \<or> y = NaN then NaN
      else
        (case (x, y) of
           (Fin a, Fin b) \<Rightarrow>
             if a = 0 then (if b < 0 then PInf else Fin 0)
             else if a < 0 then
               (if is_integer b
                then (if is_odd_integer y then fneg (to_double (\<bar>a\<bar> powr b))
                      else to_double (\<bar>a\<bar> powr b))
                else NaN)
             else to_double (a powr b)
         | (Fin a, PInf) \<Rightarrow> if \<bar>a\<bar> < 1 then Fin 0 else if \<bar>a\<bar> = 1 then Fin 1 else PInf
         | (Fin a, _) \<Rightarrow> if \<bar>a\<bar> < 1 then PInf else if \<bar>a\<bar> = 1 then Fin 1 else Fin 0
         | (PInf, _) \<Rightarrow> if is_negative y then Fin 0 else PInf
         | (_, _) \<Rightarrow> if is_negative y then Fin 0
                     else if is_odd_integer y then NInf else PInf))"

text \<open>
  \<open>atan2 y x\<close> of the C library (C99 F.9.1.4), a zero counting as \<^verbatim>\<open>0.0\<close>: at \<^verbatim>\<open>-0.0\<close>
  for \<open>y\<close> and a negative \<open>x\<close> the C library returns \<open>- pi\<close>, and at a zero \<open>y\<close> and
  \<^verbatim>\<open>-0.0\<close> for \<open>x\<close> it returns \<open>pi\<close> or \<open>- pi\<close>, where this function returns the value at
  \<^verbatim>\<open>0.0\<close>.
\<close>

definition c_atan2 :: "pyfloat \<Rightarrow> pyfloat \<Rightarrow> pyfloat" where
  "c_atan2 y x =
     (case (y, x) of
        (NaN, _) \<Rightarrow> NaN
      | (_, NaN) \<Rightarrow> NaN
      | (Fin b, Fin a) \<Rightarrow>
          if a > 0 then to_double (arctan (b / a))
          else if a < 0 then
            (if b \<ge> 0 then to_double (arctan (b / a) + pi) else to_double (arctan (b / a) - pi))
          else if b > 0 then to_double (pi / 2)
          else if b < 0 then to_double (- pi / 2)
          else Fin 0
      | (Fin b, PInf) \<Rightarrow> Fin 0
      | (Fin b, NInf) \<Rightarrow> if b \<ge> 0 then to_double pi else to_double (- pi)
      | (PInf, Fin a) \<Rightarrow> to_double (pi / 2)
      | (NInf, Fin a) \<Rightarrow> to_double (- pi / 2)
      | (PInf, PInf) \<Rightarrow> to_double (pi / 4)
      | (NInf, PInf) \<Rightarrow> to_double (- pi / 4)
      | (PInf, NInf) \<Rightarrow> to_double (3 * pi / 4)
      | (NInf, NInf) \<Rightarrow> to_double (- 3 * pi / 4))"

subsection \<open>Exceptions\<close>

text \<open>
  What a call of the evaluator can raise, as a value. The first group are the
  \<^verbatim>\<open>ValueError\<close>s that evaluator.py raises itself, each with the name its message prints:
  "Undefined variable: x", "Unknown constant: x", "Insufficient operands for operator x",
  "Unknown operator: x", "Insufficient arguments for function x", "Unknown function: x",
  "Invalid expression: incorrect number of values remaining". The second group are the
  exceptions of Python's own operations: the \<^verbatim>\<open>ValueError\<close> of \<^verbatim>\<open>float(s)\<close> ("could not
  convert string to float"), the \<^verbatim>\<open>ValueError\<close> of the math module ("math domain error"),
  the \<^verbatim>\<open>ValueError\<close> "cannot convert float NaN to integer", \<^verbatim>\<open>ZeroDivisionError\<close>,
  \<^verbatim>\<open>OverflowError\<close> and \<^verbatim>\<open>TypeError\<close>. \<open>SyntaxInvalid\<close> is the failure that
  \<^verbatim>\<open>parse_expression\<close> reports when \<^verbatim>\<open>validate_syntax\<close> rejects the tokens.
\<close>

datatype error =
    SyntaxInvalid syntax_error
  | UndefinedVariable string
  | UnknownConstant string
  | InsufficientOperands string
  | UnknownOperator string
  | InsufficientArguments string
  | UnknownFunction string
  | InvalidExpression
  | CouldNotConvert string
  | MathDomainError
  | NaNToInteger
  | ZeroDivisionError
  | OverflowError
  | TypeError

definition then_do :: "error + 'a \<Rightarrow> ('a \<Rightarrow> error + 'b) \<Rightarrow> error + 'b" where
  "then_do r f = (case r of Inl e \<Rightarrow> Inl e | Inr x \<Rightarrow> f x)"

subsection \<open>Values and the arithmetic operators\<close>

text \<open>
  The values that reach the evaluator's stack: a \<^verbatim>\<open>float\<close>, an \<^verbatim>\<open>int\<close> (unbounded; the
  result of \<^verbatim>\<open>math.floor\<close>, \<^verbatim>\<open>math.ceil\<close> and \<^verbatim>\<open>round\<close>, or the value of a variable), or
  a \<^verbatim>\<open>complex\<close> (a pair of doubles; the result of a negative float raised to a fractional
  power).
\<close>

datatype pyval = PyFloat pyfloat | PyInt int | PyComplex pyfloat pyfloat

type_synonym py_complex = "pyfloat \<times> pyfloat"

definition is_complex :: "pyval \<Rightarrow> bool" where
  "is_complex v = (case v of PyComplex re im \<Rightarrow> True | _ \<Rightarrow> False)"

text \<open>\<^verbatim>\<open>v == 0\<close> for a number \<open>v\<close>.\<close>

definition is_zero :: "pyval \<Rightarrow> bool" where
  "is_zero v =
     (case v of PyFloat x \<Rightarrow> feq x (Fin 0) | PyInt n \<Rightarrow> n = 0
      | PyComplex re im \<Rightarrow> feq re (Fin 0) \<and> feq im (Fin 0))"

text \<open>
  The conversion of an \<^verbatim>\<open>int\<close> to a double (\<open>PyLong_AsDouble\<close>): correctly rounded, and an
  \<^verbatim>\<open>OverflowError\<close> when the int is too large.
\<close>

definition int_to_double :: "int \<Rightarrow> error + pyfloat" where
  "int_to_double n = (case to_double (of_int n) of Fin r \<Rightarrow> Inr (Fin r) | _ \<Rightarrow> Inl OverflowError)"

text \<open>\<open>PyFloat_AsDouble\<close>: the argument of a math function as a double.\<close>

definition as_double :: "pyval \<Rightarrow> error + pyfloat" where
  "as_double v =
     (case v of PyFloat x \<Rightarrow> Inr x | PyInt n \<Rightarrow> int_to_double n | PyComplex re im \<Rightarrow> Inl TypeError)"

definition as_complex :: "pyval \<Rightarrow> error + py_complex" where
  "as_complex v =
     (case v of
        PyFloat x \<Rightarrow> Inr (x, Fin 0)
      | PyInt n \<Rightarrow> then_do (int_to_double n) (\<lambda>x. Inr (x, Fin 0))
      | PyComplex re im \<Rightarrow> Inr (re, im))"

text \<open>The complex arithmetic of complexobject.c.\<close>

definition c_sum :: "py_complex \<Rightarrow> py_complex \<Rightarrow> py_complex" where
  "c_sum a b = (fadd (fst a) (fst b), fadd (snd a) (snd b))"

definition c_diff :: "py_complex \<Rightarrow> py_complex \<Rightarrow> py_complex" where
  "c_diff a b = (fsub (fst a) (fst b), fsub (snd a) (snd b))"

definition c_prod :: "py_complex \<Rightarrow> py_complex \<Rightarrow> py_complex" where
  "c_prod a b =
     (fsub (fmul (fst a) (fst b)) (fmul (snd a) (snd b)),
      fadd (fmul (fst a) (snd b)) (fmul (snd a) (fst b)))"

text \<open>\<open>None\<close> is the C function's \<^verbatim>\<open>errno = EDOM\<close>, which its callers raise as ZeroDivisionError.\<close>

definition c_quot :: "py_complex \<Rightarrow> py_complex \<Rightarrow> py_complex option" where
  "c_quot a b =
     (let abs_breal = fabs (fst b); abs_bimag = fabs (snd b) in
      if fle abs_bimag abs_breal then
        (if feq abs_breal (Fin 0) then None
         else
           (let ratio = fdiv (snd b) (fst b);
                denom = fadd (fst b) (fmul (snd b) ratio)
            in Some (fdiv (fadd (fst a) (fmul (snd a) ratio)) denom,
                     fdiv (fsub (snd a) (fmul (fst a) ratio)) denom)))
      else if fle abs_breal abs_bimag then
        (let ratio = fdiv (fst b) (snd b);
             denom = fadd (fmul (fst b) ratio) (snd b)
         in Some (fdiv (fadd (fmul (fst a) ratio) (snd a)) denom,
                  fdiv (fsub (fmul (snd a) ratio) (fst a)) denom))
      else Some (NaN, NaN))"

text \<open>\<open>c_powu\<close>: the power by squaring, with \<open>r\<close> the result so far and \<open>p\<close> the current square.\<close>

function c_powu_loop :: "py_complex \<Rightarrow> py_complex \<Rightarrow> nat \<Rightarrow> py_complex" where
  "c_powu_loop r p n =
     (if n = 0 then r
      else c_powu_loop (if odd n then c_prod r p else r) (c_prod p p) (n div 2))"
  by pat_completeness auto
termination
  by (relation "measure (\<lambda>(r, p, n). n)") auto

declare c_powu_loop.simps [simp del]

definition c_powu :: "py_complex \<Rightarrow> nat \<Rightarrow> py_complex" where
  "c_powu x n = c_powu_loop (Fin 1, Fin 0) x n"

definition c_powi :: "py_complex \<Rightarrow> int \<Rightarrow> py_complex option" where
  "c_powi x n =
     (if n > 0 then Some (c_powu x (nat n)) else c_quot (Fin 1, Fin 0) (c_powu x (nat (- n))))"

definition Py_c_pow :: "py_complex \<Rightarrow> py_complex \<Rightarrow> py_complex option" where
  "Py_c_pow a b =
     (if feq (fst b) (Fin 0) \<and> feq (snd b) (Fin 0) then Some (Fin 1, Fin 0)
      else if feq (fst a) (Fin 0) \<and> feq (snd a) (Fin 0) then
        (if \<not> feq (snd b) (Fin 0) \<or> flt (fst b) (Fin 0) then None else Some (Fin 0, Fin 0))
      else
        (let vabs = c_hypot (fst a) (snd a);
             len0 = c_pow vabs (fst b);
             ang = c_atan2 (snd a) (fst a);
             phase0 = fmul ang (fst b);
             len = (if \<not> feq (snd b) (Fin 0) then fdiv len0 (c_exp (fmul ang (snd b))) else len0);
             phase = (if \<not> feq (snd b) (Fin 0) then fadd phase0 (fmul (snd b) (c_log vabs))
                      else phase0)
         in if isinf phase then None
            else Some (fmul len (c_cos phase), fmul len (c_sin phase))))"

text \<open>
  \<^verbatim>\<open>complex.__pow__\<close>: the power by squaring for an integral exponent of absolute value
  at most 100, the polar form otherwise; \<^verbatim>\<open>EDOM\<close> raises ZeroDivisionError and an
  infinite component raises OverflowError. \<open>None\<close> stands for \<^verbatim>\<open>errno = EDOM\<close>, which
  \<open>Py_c_pow\<close> sets for a zero base with a negative or complex exponent, and which the C
  library sets in \<^verbatim>\<open>cos\<close> and \<^verbatim>\<open>sin\<close> at an infinite phase; no other call of \<open>Py_c_pow\<close>
  sets it, and \<^verbatim>\<open>ERANGE\<close> is read off the components of the result.
\<close>

definition complex_pow :: "py_complex \<Rightarrow> py_complex \<Rightarrow> error + pyval" where
  "complex_pow a b =
     (let p = (case fst b of
                 Fin r \<Rightarrow> if feq (snd b) (Fin 0) \<and> is_integer r \<and> \<bar>r\<bar> \<le> 100
                          then c_powi a \<lfloor>r\<rfloor> else Py_c_pow a b
               | _ \<Rightarrow> Py_c_pow a b)
      in case p of
           None \<Rightarrow> Inl ZeroDivisionError
         | Some (re, im) \<Rightarrow> if isinf re \<or> isinf im then Inl OverflowError else Inr (PyComplex re im))"

text \<open>\<^verbatim>\<open>float.__pow__\<close> (\<open>float_pow\<close> of floatobject.c), case by case in its order.\<close>

definition float_pow :: "pyfloat \<Rightarrow> pyfloat \<Rightarrow> error + pyval" where
  "float_pow iv iw =
     (if feq iw (Fin 0) then Inr (PyFloat (Fin 1))
      else if isnan iv then Inr (PyFloat iv)
      else if isnan iw then Inr (PyFloat (if feq iv (Fin 1) then Fin 1 else iw))
      else if isinf iw then
        (if feq (fabs iv) (Fin 1) then Inr (PyFloat (Fin 1))
         else if flt (Fin 0) iw = flt (Fin 1) (fabs iv) then Inr (PyFloat (fabs iw))
         else Inr (PyFloat (Fin 0)))
      else if isinf iv then
        (if flt (Fin 0) iw then Inr (PyFloat (if is_odd_integer iw then iv else fabs iv))
         else Inr (PyFloat (Fin 0)))
      else if feq iv (Fin 0) then
        (if flt iw (Fin 0) then Inl ZeroDivisionError else Inr (PyFloat (Fin 0)))
      else if flt iv (Fin 0) \<and> (case iw of Fin y \<Rightarrow> \<not> is_integer y | _ \<Rightarrow> False) then
        complex_pow (iv, Fin 0) (iw, Fin 0)
      else
        (let negate_result = (flt iv (Fin 0) \<and> is_odd_integer iw);
             av = fabs iv
         in if feq av (Fin 1) then Inr (PyFloat (if negate_result then Fin (- 1) else Fin 1))
            else
              (let ix = c_pow av iw in
               if isinf ix then Inl OverflowError
               else Inr (PyFloat (if negate_result then fneg ix else ix)))))"

text \<open>The operators on two floats, on two ints and on two complex numbers.\<close>

definition float_div :: "pyfloat \<Rightarrow> pyfloat \<Rightarrow> error + pyval" where
  "float_div a b = (if feq b (Fin 0) then Inl ZeroDivisionError else Inr (PyFloat (fdiv a b)))"

definition int_true_divide :: "int \<Rightarrow> int \<Rightarrow> error + pyval" where
  "int_true_divide a b =
     (if b = 0 then Inl ZeroDivisionError
      else
        (case to_double (of_int a / of_int b) of
           Fin r \<Rightarrow> Inr (PyFloat (Fin r))
         | _ \<Rightarrow> Inl OverflowError))"

definition int_pow :: "int \<Rightarrow> int \<Rightarrow> error + pyval" where
  "int_pow a b =
     (if b < 0 then
        then_do (int_to_double a) (\<lambda>x. then_do (int_to_double b) (\<lambda>y. float_pow x y))
      else Inr (PyInt (a ^ nat b)))"

definition complex_div :: "py_complex \<Rightarrow> py_complex \<Rightarrow> error + pyval" where
  "complex_div a b =
     (case c_quot a b of None \<Rightarrow> Inl ZeroDivisionError | Some (re, im) \<Rightarrow> Inr (PyComplex re im))"

definition mk_complex :: "py_complex \<Rightarrow> error + pyval" where
  "mk_complex z = Inr (PyComplex (fst z) (snd z))"

text \<open>
  How Python picks the operation for \<^verbatim>\<open>x OP y\<close>: the int operation for two ints, the
  complex one when an operand is complex, the float one otherwise, the other operand being
  converted first.
\<close>

definition binary_op ::
  "(int \<Rightarrow> int \<Rightarrow> error + pyval) \<Rightarrow> (pyfloat \<Rightarrow> pyfloat \<Rightarrow> error + pyval) \<Rightarrow>
   (py_complex \<Rightarrow> py_complex \<Rightarrow> error + pyval) \<Rightarrow> pyval \<Rightarrow> pyval \<Rightarrow> error + pyval" where
  "binary_op int_op float_op complex_op x y =
     (case (x, y) of
        (PyInt a, PyInt b) \<Rightarrow> int_op a b
      | _ \<Rightarrow>
        if is_complex x \<or> is_complex y then
          then_do (as_complex x) (\<lambda>a. then_do (as_complex y) (\<lambda>b. complex_op a b))
        else
          then_do (as_double x) (\<lambda>a. then_do (as_double y) (\<lambda>b. float_op a b)))"

definition py_add :: "pyval \<Rightarrow> pyval \<Rightarrow> error + pyval" where
  "py_add = binary_op (\<lambda>a b. Inr (PyInt (a + b))) (\<lambda>a b. Inr (PyFloat (fadd a b)))
              (\<lambda>a b. mk_complex (c_sum a b))"

definition py_sub :: "pyval \<Rightarrow> pyval \<Rightarrow> error + pyval" where
  "py_sub = binary_op (\<lambda>a b. Inr (PyInt (a - b))) (\<lambda>a b. Inr (PyFloat (fsub a b)))
              (\<lambda>a b. mk_complex (c_diff a b))"

definition py_mul :: "pyval \<Rightarrow> pyval \<Rightarrow> error + pyval" where
  "py_mul = binary_op (\<lambda>a b. Inr (PyInt (a * b))) (\<lambda>a b. Inr (PyFloat (fmul a b)))
              (\<lambda>a b. mk_complex (c_prod a b))"

definition py_truediv :: "pyval \<Rightarrow> pyval \<Rightarrow> error + pyval" where
  "py_truediv = binary_op int_true_divide float_div complex_div"

definition py_pow :: "pyval \<Rightarrow> pyval \<Rightarrow> error + pyval" where
  "py_pow = binary_op int_pow float_pow complex_pow"

subsection \<open>The functions of the math module and the built-ins\<close>

text \<open>
  \<open>math_1\<close> of mathmodule.c wraps a function of the C library: a NaN result from an
  argument that is no NaN is a ValueError ("math domain error"); an infinite result from a
  finite argument is an OverflowError where the function can overflow and a ValueError
  otherwise.
\<close>

definition math_1 :: "(pyfloat \<Rightarrow> pyfloat) \<Rightarrow> bool \<Rightarrow> pyval \<Rightarrow> error + pyval" where
  "math_1 func can_overflow arg =
     then_do (as_double arg) (\<lambda>x.
       (let r = func x in
        if isnan r \<and> \<not> isnan x then Inl MathDomainError
        else if isinf r \<and> isfinite x then
          (if can_overflow then Inl OverflowError else Inl MathDomainError)
        else Inr (PyFloat r)))"

text \<open>
  \<open>_PyLong_Frexp\<close>: a positive int as \<open>x * 2 ^ e\<close> with \<open>x\<close> a double, \<open>1/2 \<le> x < 1\<close>.
\<close>

definition long_frexp :: "int \<Rightarrow> pyfloat \<times> int" where
  "long_frexp n =
     (let e = \<lfloor>log 2 (of_int n)\<rfloor> + 1;
          x = to_double (of_int n / 2 powr of_int e)
      in if x = Fin 1 then (Fin (1 / 2), e + 1) else (x, e))"

text \<open>
  \<^verbatim>\<open>math.log(arg)\<close> and \<^verbatim>\<open>math.log10(arg)\<close> (\<open>loghelper\<close>): an int that is not positive is
  a ValueError, and an int too large for a double still has a logarithm.
\<close>

definition loghelper :: "(pyfloat \<Rightarrow> pyfloat) \<Rightarrow> pyval \<Rightarrow> error + pyval" where
  "loghelper func arg =
     (case arg of
        PyInt n \<Rightarrow>
          if n \<le> 0 then Inl MathDomainError
          else
            (case int_to_double n of
               Inr x \<Rightarrow> Inr (PyFloat (func x))
             | Inl err \<Rightarrow>
                 (case long_frexp n of
                    (x, e) \<Rightarrow> Inr (PyFloat (fadd (func x) (fmul (func (Fin 2)) (to_double (of_int e)))))))
      | _ \<Rightarrow> math_1 func False arg)"

text \<open>The conversion of a double to an int, after \<open>f\<close> has picked the integer.\<close>

definition double_to_int :: "(real \<Rightarrow> int) \<Rightarrow> pyfloat \<Rightarrow> error + pyval" where
  "double_to_int f x =
     (case x of Fin r \<Rightarrow> Inr (PyInt (f r)) | NaN \<Rightarrow> Inl NaNToInteger | _ \<Rightarrow> Inl OverflowError)"

definition math_floor :: "pyval \<Rightarrow> error + pyval" where
  "math_floor arg =
     (case arg of PyFloat x \<Rightarrow> double_to_int floor x | PyInt n \<Rightarrow> Inr (PyInt n)
      | PyComplex re im \<Rightarrow> Inl TypeError)"

definition math_ceil :: "pyval \<Rightarrow> error + pyval" where
  "math_ceil arg =
     (case arg of PyFloat x \<Rightarrow> double_to_int ceiling x | PyInt n \<Rightarrow> Inr (PyInt n)
      | PyComplex re im \<Rightarrow> Inl TypeError)"

text \<open>The built-in \<^verbatim>\<open>round\<close> with one argument: to the nearest int, ties to even.\<close>

definition py_round :: "pyval \<Rightarrow> error + pyval" where
  "py_round arg =
     (case arg of PyFloat x \<Rightarrow> double_to_int round_half_even x | PyInt n \<Rightarrow> Inr (PyInt n)
      | PyComplex re im \<Rightarrow> Inl TypeError)"

text \<open>The built-in \<^verbatim>\<open>abs\<close>; for a complex number \<open>_Py_c_abs\<close> and its OverflowError.\<close>

definition py_abs :: "pyval \<Rightarrow> error + pyval" where
  "py_abs arg =
     (case arg of
        PyFloat x \<Rightarrow> Inr (PyFloat (fabs x))
      | PyInt n \<Rightarrow> Inr (PyInt \<bar>n\<bar>)
      | PyComplex re im \<Rightarrow>
          if isfinite re \<and> isfinite im then
            (let result = c_hypot re im in
             if isfinite result then Inr (PyFloat result) else Inl OverflowError)
          else if isinf re \<or> isinf im then Inr (PyFloat PInf)
          else Inr (PyFloat NaN))"

subsection \<open>\<^verbatim>\<open>float(s)\<close> for a string\<close>

text \<open>
  Python's conversion of a string to a float: white space is stripped at both ends, an
  underscore may stand between two digits, then comes an optional sign and either
  \<^verbatim>\<open>inf\<close>, \<^verbatim>\<open>infinity\<close> or \<^verbatim>\<open>nan\<close> in any case, or a decimal numeral: digits with at most
  one point and at least one digit, and an optional exponent \<^verbatim>\<open>e\<close> or \<^verbatim>\<open>E\<close> with an
  optional sign and at least one digit. Anything else is a ValueError. The digits are the
  ASCII digits: the other decimal digits of Unicode are all above U+00FF. The white space
  that is stripped is the ASCII white space (U+0009 to U+000D and the space) and, of the
  characters from U+007F on, those that \<^verbatim>\<open>str.isspace\<close> accepts, which CPython turns into
  spaces first: U+0085 and U+00A0 below U+0100. The separators U+001C to U+001F are left
  in place, and the conversion fails on them.
\<close>

definition isspace :: "char \<Rightarrow> bool" where
  "isspace c = (let n = (of_char c :: nat) in
     (9 \<le> n \<and> n \<le> 13) \<or> n = 32 \<or> n = 133 \<or> n = 160)"

definition strip :: "string \<Rightarrow> string" where
  "strip s = rev (dropWhile isspace (rev (dropWhile isspace s)))"

definition ascii_digit :: "char \<Rightarrow> bool" where
  "ascii_digit c = (let n = (of_char c :: nat) in 48 \<le> n \<and> n \<le> 57)"

definition decimal_value :: "string \<Rightarrow> nat" where
  "decimal_value ds = foldl (\<lambda>n c. 10 * n + (of_char c - 48)) 0 ds"

fun underscores_ok :: "char \<Rightarrow> string \<Rightarrow> bool" where
  "underscores_ok prev [] = (prev \<noteq> CHR ''_'')"
| "underscores_ok prev (c # cs) =
     (if c = CHR ''_'' then ascii_digit prev \<and> underscores_ok c cs
      else (prev = CHR ''_'' \<longrightarrow> ascii_digit c) \<and> underscores_ok c cs)"

definition parse_sign :: "string \<Rightarrow> bool \<times> string" where
  "parse_sign s =
     (case s of
        [] \<Rightarrow> (False, [])
      | c # cs \<Rightarrow> if c = CHR ''-'' then (True, cs) else if c = CHR ''+'' then (False, cs)
                  else (False, s))"

definition pow10 :: "int \<Rightarrow> real" where
  "pow10 k = (if k \<ge> 0 then 10 ^ nat k else 1 / 10 ^ nat (- k))"

definition parse_decimal :: "string \<Rightarrow> real option" where
  "parse_decimal s =
     (let int_part = takeWhile ascii_digit s;
          rest1 = dropWhile ascii_digit s;
          has_point = (rest1 \<noteq> [] \<and> hd rest1 = CHR ''.'');
          frac_part = (if has_point then takeWhile ascii_digit (tl rest1) else []);
          rest2 = (if has_point then dropWhile ascii_digit (tl rest1) else rest1);
          mantissa = real (decimal_value (int_part @ frac_part))
      in if int_part = [] \<and> frac_part = [] then None
         else if rest2 = [] then Some (mantissa * pow10 (- int (length frac_part)))
         else if hd rest2 = CHR ''e'' \<or> hd rest2 = CHR ''E'' then
           (case parse_sign (tl rest2) of
              (negative, ds) \<Rightarrow>
                if ds \<noteq> [] \<and> list_all ascii_digit ds then
                  Some (mantissa *
                    pow10 ((if negative then - int (decimal_value ds) else int (decimal_value ds))
                           - int (length frac_part)))
                else None)
         else None)"

definition py_float :: "string \<Rightarrow> error + pyfloat" where
  "py_float s =
     (let t = strip s in
      if \<not> underscores_ok (CHR 0x00) t then Inl (CouldNotConvert s)
      else
        (case parse_sign (filter (\<lambda>c. c \<noteq> CHR ''_'') t) of
           (negative, body) \<Rightarrow>
             if map lower body = ''inf'' \<or> map lower body = ''infinity'' then
               Inr (if negative then NInf else PInf)
             else if map lower body = ''nan'' then Inr NaN
             else
               (case parse_decimal body of
                  None \<Rightarrow> Inl (CouldNotConvert s)
                | Some x \<Rightarrow> Inr (to_double (if negative then - x else x)))))"

section \<open>The evaluator (evaluator.py)\<close>

text \<open>The three tables of \<^verbatim>\<open>MathEvaluator.__init__\<close>.\<close>

definition evaluator_functions :: "string \<rightharpoonup> (pyval \<Rightarrow> error + pyval)" where
  "evaluator_functions =
     [''sin'' \<mapsto> math_1 c_sin False, ''cos'' \<mapsto> math_1 c_cos False, ''tan'' \<mapsto> math_1 c_tan False,
      ''asin'' \<mapsto> math_1 c_asin False, ''acos'' \<mapsto> math_1 c_acos False,
      ''atan'' \<mapsto> math_1 c_atan False,
      ''sinh'' \<mapsto> math_1 c_sinh True, ''cosh'' \<mapsto> math_1 c_cosh True,
      ''tanh'' \<mapsto> math_1 c_tanh False,
      ''ln'' \<mapsto> loghelper c_log, ''log'' \<mapsto> loghelper c_log10,
      ''exp'' \<mapsto> math_1 c_exp True, ''sqrt'' \<mapsto> math_1 c_sqrt False,
      ''abs'' \<mapsto> py_abs, ''floor'' \<mapsto> math_floor, ''ceil'' \<mapsto> math_ceil,
      ''round'' \<mapsto> py_round]"

text \<open>
  \<^verbatim>\<open>math.pi\<close> and \<^verbatim>\<open>math.e\<close> are the doubles nearest to the two numbers; \<^verbatim>\<open>phi\<close> is
  computed in doubles as \<^verbatim>\<open>(1 + math.sqrt(5)) / 2\<close>; \<^verbatim>\<open>gamma\<close> is the literal
  \<^verbatim>\<open>0.5772156649015329\<close>.
\<close>

definition evaluator_constants :: "string \<rightharpoonup> pyval" where
  "evaluator_constants =
     [''pi'' \<mapsto> PyFloat (to_double pi),
      ''e'' \<mapsto> PyFloat (to_double (exp 1)),
      ''phi'' \<mapsto> PyFloat (fdiv (fadd (Fin 1) (c_sqrt (Fin 5))) (Fin 2)),
      ''gamma'' \<mapsto> PyFloat (to_double (5772156649015329 / 10 ^ 16)),
      ''inf'' \<mapsto> PyFloat PInf,
      ''nan'' \<mapsto> PyFloat NaN]"

definition evaluator_operators :: "string \<rightharpoonup> (pyval \<Rightarrow> pyval \<Rightarrow> error + pyval)" where
  "evaluator_operators =
     [''+'' \<mapsto> py_add, ''-'' \<mapsto> py_sub, ''*'' \<mapsto> py_mul, ''/'' \<mapsto> py_truediv,
      ''^'' \<mapsto> py_pow, ''**'' \<mapsto> py_pow]"

text \<open>The list of names in the FUNCTION branch of \<^verbatim>\<open>evaluate_postfix\<close>.\<close>

definition unary_functions :: "string list" where
  "unary_functions = [''sin'', ''cos'', ''tan'', ''asin'', ''acos'', ''atan'',
                      ''sinh'', ''cosh'', ''tanh'', ''ln'', ''log'', ''exp'',
                      ''sqrt'', ''abs'', ''floor'', ''ceil'', ''round'']"

text \<open>
  The \<^verbatim>\<open>for\<close> loop of \<^verbatim>\<open>evaluate_postfix\<close>. The Python list \<^verbatim>\<open>stack\<close> is kept with its
  top first. A \<^verbatim>\<open>raise\<close> ends the loop with \<open>Inl\<close>; a token of any other type than the
  five that the loop tests is passed over.
\<close>

fun evaluate_loop :: "Token list \<Rightarrow> (string \<rightharpoonup> pyval) \<Rightarrow> pyval list \<Rightarrow> error + pyval list" where
  "evaluate_loop [] variables stack = Inr stack"
| "evaluate_loop (token # postfix_tokens) variables stack =
     (case tok_type token of
        NUMBER \<Rightarrow>
          then_do (py_float (tok_value token))
            (\<lambda>x. evaluate_loop postfix_tokens variables (PyFloat x # stack))
      | VARIABLE \<Rightarrow>
          (case variables (tok_value token) of
             Some v \<Rightarrow> evaluate_loop postfix_tokens variables (v # stack)
           | None \<Rightarrow> Inl (UndefinedVariable (tok_value token)))
      | CONSTANT \<Rightarrow>
          (case evaluator_constants (tok_value token) of
             Some v \<Rightarrow> evaluate_loop postfix_tokens variables (v # stack)
           | None \<Rightarrow> Inl (UnknownConstant (tok_value token)))
      | OPERATOR \<Rightarrow>
          (case stack of
             b # a # rest \<Rightarrow>
               (case evaluator_operators (tok_value token) of
                  Some operator \<Rightarrow>
                    then_do (operator a b)
                      (\<lambda>result. evaluate_loop postfix_tokens variables (result # rest))
                | None \<Rightarrow> Inl (UnknownOperator (tok_value token)))
           | _ \<Rightarrow> Inl (InsufficientOperands (tok_value token)))
      | FUNCTION \<Rightarrow>
          (case evaluator_functions (tok_value token) of
             Some func \<Rightarrow>
               if tok_value token \<in> set unary_functions then
                 (case stack of
                    arg # rest \<Rightarrow>
                      then_do (func arg)
                        (\<lambda>result. evaluate_loop postfix_tokens variables (result # rest))
                  | [] \<Rightarrow> Inl (InsufficientArguments (tok_value token)))
               else evaluate_loop postfix_tokens variables stack
           | None \<Rightarrow> Inl (UnknownFunction (tok_value token)))
      | _ \<Rightarrow> evaluate_loop postfix_tokens variables stack)"

definition evaluate_postfix :: "Token list \<Rightarrow> (string \<rightharpoonup> pyval) \<Rightarrow> error + pyval" where
  "evaluate_postfix postfix_tokens variables =
     then_do (evaluate_loop postfix_tokens variables [])
       (\<lambda>stack. if length stack \<noteq> 1 then Inl InvalidExpression else Inr (hd stack))"

text \<open>
  \<^verbatim>\<open>parse_expression\<close> of parser.py: the tokens and the postfix sequence, or the validator's
  message. \<^verbatim>\<open>evaluate_expression\<close> of evaluator.py: the entry \<^verbatim>\<open>result\<close> of the dictionary
  it returns on success, or the failure that its entry \<^verbatim>\<open>error\<close> prints; an exception
  raised by \<^verbatim>\<open>evaluate_postfix\<close> is caught there and becomes such a failure.
\<close>

definition parse_expression :: "string \<Rightarrow> syntax_error + Token list \<times> Token list" where
  "parse_expression expression =
     (let tokens = tokenize expression in
      case validate_syntax tokens of
        Some err \<Rightarrow> Inl err
      | None \<Rightarrow> Inr (tokens, parse_to_postfix tokens))"

definition evaluate_expression :: "string \<Rightarrow> (string \<rightharpoonup> pyval) \<Rightarrow> error + pyval" where
  "evaluate_expression expression variables =
     (case parse_expression expression of
        Inl err \<Rightarrow> Inl (SyntaxInvalid err)
      | Inr (tokens, postfix) \<Rightarrow> evaluate_postfix postfix variables)"

section \<open>Notions of the specification\<close>

text \<open>
  The tokens that the validator and the converter process: those before the first EOF
  token. The tokenizer puts exactly one EOF token, at the end, so for its output these are
  all tokens but the last.
\<close>

definition before_eof :: "Token list \<Rightarrow> Token list" where
  "before_eof tokens = takeWhile (\<lambda>t. tok_type t \<noteq> EOF) tokens"

definition is_value :: "Token \<Rightarrow> bool" where
  "is_value t = (tok_type t = NUMBER \<or> tok_type t = VARIABLE \<or> tok_type t = CONSTANT)"

definition kept :: "Token \<Rightarrow> bool" where
  "kept t = (is_value t \<or> tok_type t = OPERATOR \<or> tok_type t = FUNCTION)"

definition count_type :: "TokenType \<Rightarrow> Token list \<Rightarrow> nat" where
  "count_type k tokens = length (filter (\<lambda>t. tok_type t = k) tokens)"

text \<open>
  The chain after the tokenizer, as \<^verbatim>\<open>evaluate_expression\<close> runs it: validate, convert,
  evaluate.
\<close>

definition evaluate_tokens :: "Token list \<Rightarrow> (string \<rightharpoonup> pyval) \<Rightarrow> error + pyval" where
  "evaluate_tokens tokens variables =
     (case validate_syntax tokens of
        Some err \<Rightarrow> Inl (SyntaxInvalid err)
      | None \<Rightarrow> evaluate_postfix (parse_to_postfix tokens) variables)"

text \<open>
  For the proofs about the converter: the tokens that are no left parenthesis, the number
  of left parentheses on the stack, what the RIGHT_PAREN branch does to the stack left by
  its first inner loop, and one pass of the converter's loop as a function.
\<close>

definition not_left_paren :: "Token \<Rightarrow> bool" where
  "not_left_paren t = (tok_type t \<noteq> LEFT_PAREN)"

definition left_parens :: "Token list \<Rightarrow> nat" where
  "left_parens ts = length (filter (\<lambda>t. tok_type t = LEFT_PAREN) ts)"

definition after_paren :: "Token list \<Rightarrow> Token list" where
  "after_paren stack' = (case stack' of [] \<Rightarrow> [] | paren # rest \<Rightarrow> rest)"

definition postfix_step :: "Token \<Rightarrow> Token list \<Rightarrow> Token list \<Rightarrow> Token list \<times> Token list" where
  "postfix_step token out stack =
     (case tok_type token of
        NUMBER \<Rightarrow> (out @ [token], stack)
      | VARIABLE \<Rightarrow> (out @ [token], stack)
      | CONSTANT \<Rightarrow> (out @ [token], stack)
      | FUNCTION \<Rightarrow> (out, token # stack)
      | LEFT_PAREN \<Rightarrow> (out, token # stack)
      | COMMA \<Rightarrow> pop_until_left_paren out stack
      | OPERATOR \<Rightarrow> (case pop_operators token out stack of (out', stack') \<Rightarrow> (out', token # stack'))
      | RIGHT_PAREN \<Rightarrow>
          (case after_paren (dropWhile not_left_paren stack) of
             [] \<Rightarrow> (out @ takeWhile not_left_paren stack, [])
           | top_token # rest \<Rightarrow>
               if tok_type top_token = FUNCTION
               then (out @ takeWhile not_left_paren stack @ [top_token], rest)
               else (out @ takeWhile not_left_paren stack, top_token # rest))
      | EOF \<Rightarrow> (out, stack))"

text \<open>
  The validator's rules at one token of the sequence before EOF, to say which violation
  comes first: the token at index \<open>i\<close> is a closing parenthesis that no opening one
  matches, or an operator right after an operator, or a function right after a token that
  is no operator, left parenthesis or comma. \<open>first_violation\<close> is the violation at the
  least index that has one, and \<open>validate_spec\<close> the verdict that puts the violations in
  the order of the tokens.
\<close>

definition paren_depth :: "Token list \<Rightarrow> int" where
  "paren_depth tokens = int (count_type LEFT_PAREN tokens) - int (count_type RIGHT_PAREN tokens)"

definition violation :: "Token list \<Rightarrow> nat \<Rightarrow> syntax_error option" where
  "violation body i =
     (let token = body ! i in
      if tok_type token = RIGHT_PAREN \<and> paren_depth (take (Suc i) body) < 0 then
        Some (UnmatchedClosing (tok_position token))
      else if 0 < i \<and> tok_type (body ! (i - 1)) = OPERATOR \<and> tok_type token = OPERATOR then
        Some (ConsecutiveOperators (tok_position token))
      else if tok_type token = FUNCTION \<and> 0 < i
              \<and> tok_type (body ! (i - 1)) \<notin> {OPERATOR, LEFT_PAREN, COMMA} then
        Some (InvalidFunctionCall (tok_position token))
      else None)"

definition violation_from :: "Token list \<Rightarrow> nat \<Rightarrow> syntax_error option" where
  "violation_from body k =
     (case filter (\<lambda>i. violation body i \<noteq> None) [k..<length body] of
        [] \<Rightarrow> None
      | i # later \<Rightarrow> violation body i)"

definition first_violation :: "Token list \<Rightarrow> syntax_error option" where
  "first_violation body = violation_from body 0"

definition validate_spec :: "Token list \<Rightarrow> syntax_error option" where
  "validate_spec tokens =
     (let body = before_eof tokens in
      if body = [] then Some EmptyExpression
      else
        (case first_violation body of
           Some e \<Rightarrow> Some e
         | None \<Rightarrow>
             if paren_depth body \<noteq> 0 then Some UnmatchedParentheses
             else if tok_type (last body) = OPERATOR then Some EndsWithOperator
             else None))"

definition last_token :: "Token list \<Rightarrow> Token option" where
  "last_token tokens = (if tokens = [] then None else Some (last tokens))"

text \<open>
  Where a token stands in an expression: its text is read there at its position; the EOF
  token has the empty text and stands at the end.
\<close>

definition token_at :: "string \<Rightarrow> Token \<Rightarrow> bool" where
  "token_at expression t =
     (if tok_type t = EOF then tok_value t = [] \<and> tok_position t = length expression
      else tok_value t \<noteq> [] \<and>
           slice expression (tok_position t) (tok_position t + length (tok_value t)) = tok_value t)"

text \<open>
  For the proofs about the tokenizer: one pass of its loop at a position inside the
  expression, as the token it appends, if any, and the new position.
\<close>

definition next_token :: "string \<Rightarrow> nat \<Rightarrow> Token option \<times> nat" where
  "next_token expression position =
     (let char = expression ! position in
      if isdigit char \<or> char = CHR ''.'' then
        (case parse_number expression position of
           (number, new_pos) \<Rightarrow> (Some (mk_token NUMBER number position), new_pos))
      else if isalpha char then
        (case parse_identifier expression position of
           (identifier, new_pos) \<Rightarrow>
             (Some (mk_token
                (if identifier \<in> set parser_functions then FUNCTION
                 else if identifier \<in> set parser_constants then CONSTANT else VARIABLE)
                identifier position), new_pos))
      else if char \<in> set ''+-*/^'' then
        (if char = CHR ''*'' \<and> position + 1 < length expression
            \<and> expression ! (position + 1) = CHR ''*''
         then (Some (mk_token OPERATOR ''**'' position), position + 2)
         else (Some (mk_token OPERATOR [char] position), position + 1))
      else if char = CHR ''('' then (Some (mk_token LEFT_PAREN [char] position), position + 1)
      else if char = CHR '')'' then (Some (mk_token RIGHT_PAREN [char] position), position + 1)
      else if char = CHR '','' then (Some (mk_token COMMA [char] position), position + 1)
      else (None, position + 1))"

text \<open>
  A character that the tokenizer's loop skips: none of its branches reads it, and the last
  one (\<^verbatim>\<open>else\<close>, "Skip unknown characters") steps over it. Tokens tile an expression from an
  offset on when each of them, in the order of the list, stands at the first character at
  or after the offset that is not skipped, has a text that is not empty and is read at its
  position, and the next token is sought from the end of that text on; after the last token
  only skipped characters remain up to the end of the expression. No token of the list is
  EOF. This fixes the position of every token of the list.
\<close>

definition skipped :: "char \<Rightarrow> bool" where
  "skipped c =
     (\<not> (isdigit c \<or> c = CHR ''.'') \<and> \<not> isalpha c \<and> c \<notin> set ''+-*/^''
      \<and> c \<noteq> CHR ''('' \<and> c \<noteq> CHR '')'' \<and> c \<noteq> CHR '','')"

fun tiled :: "string \<Rightarrow> nat \<Rightarrow> Token list \<Rightarrow> bool" where
  "tiled expression start [] =
     (start + length (takeWhile skipped (drop start expression)) = length expression)"
| "tiled expression start (t # ts) =
     (tok_type t \<noteq> EOF \<and>
      tok_position t = start + length (takeWhile skipped (drop start expression)) \<and>
      tok_position t < length expression \<and>
      tok_value t \<noteq> [] \<and>
      slice expression (tok_position t) (tok_position t + length (tok_value t)) = tok_value t \<and>
      tiled expression (tok_position t + length (tok_value t)) ts)"

text \<open>
  A numeric literal is a string that the tokenizer's number scanner reads from its first
  character to its end, such as \<^verbatim>\<open>2\<close>, \<^verbatim>\<open>0.5\<close> or \<^verbatim>\<open>1e-3\<close>; a delimiter is a character at
  which the scanner stops.
\<close>

definition delimiter :: "char \<Rightarrow> bool" where
  "delimiter c = (\<not> isdigit c \<and> c \<noteq> CHR ''.'' \<and> lower c \<noteq> CHR ''e'')"

definition numeric_literal :: "string \<Rightarrow> bool" where
  "numeric_literal a =
     (a \<noteq> [] \<and> (isdigit (hd a) \<or> hd a = CHR ''.'') \<and> parse_number_loop a 0 False = length a)"

section \<open>The arguments outside a function's domain\<close>

text \<open>
  Where the specification speaks of an argument outside a function's mathematical domain:
  a negative argument of \<^verbatim>\<open>sqrt\<close>, an argument of \<^verbatim>\<open>ln\<close> or \<^verbatim>\<open>log\<close> that is not positive,
  an argument of \<^verbatim>\<open>asin\<close> or \<^verbatim>\<open>acos\<close> of absolute value above one.
\<close>

definition outside_domain :: "string \<Rightarrow> pyfloat \<Rightarrow> bool" where
  "outside_domain name x =
     ((name = ''sqrt'' \<and> flt x (Fin 0)) \<or>
      ((name = ''ln'' \<or> name = ''log'') \<and> fle x (Fin 0)) \<or>
      ((name = ''asin'' \<or> name = ''acos'') \<and> flt (Fin 1) (fabs x)))"

section \<open>Rounding to a double: the exact cases\<close>

text \<open>
  A real number \<open>m * 2 ^ k\<close> with \<open>\<bar>m\<bar> < 2 ^ 53\<close> and \<open>k\<close> in the exponent range of binary64 is
  a double, and \<open>to_double\<close> leaves it as it is; so it does every integer below \<open>2 ^ 53\<close>.
\<close>

lemma round_half_even_of_int: "round_half_even (of_int n) = n"
  by (simp add: round_half_even_def)

lemma round_half_even_close: "\<bar>of_int (round_half_even y) - y\<bar> \<le> 1 / 2"
  unfolding round_half_even_def Let_def
  by (auto simp: abs_le_iff; linarith)

lemma ulp_exponent_le:
  assumes "x = of_int m * 2 powr of_int k" "m \<noteq> 0" "\<bar>m\<bar> < 2 ^ 53" "- 1074 \<le> k"
  shows "ulp_exponent x \<le> k"
proof -
  have mpos: "0 < \<bar>real_of_int m\<bar>" using assms(2) by simp
  have "\<bar>x\<bar> = \<bar>of_int m\<bar> * 2 powr of_int k" using assms(1) by (simp add: abs_mult)
  then have "log 2 \<bar>x\<bar> = log 2 \<bar>of_int m\<bar> + of_int k"
    using mpos by (simp add: log_mult)
  moreover have "log 2 \<bar>real_of_int m\<bar> < 53"
  proof -
    have "\<bar>real_of_int m\<bar> < 2 ^ 53" using assms(3)
      by (metis of_int_abs of_int_less_numeral_power_cancel_iff)
    then have "log 2 \<bar>real_of_int m\<bar> < log 2 (2 ^ 53)"
      using mpos by (subst log_less_cancel_iff) auto
    then show ?thesis using log_pow_cancel [of 2 53] by simp
  qed
  ultimately have "log 2 \<bar>x\<bar> < of_int (53 + k)" by simp
  then have "\<lfloor>log 2 \<bar>x\<bar>\<rfloor> < 53 + k" by (simp add: floor_less_iff)
  then show ?thesis using assms(4) by (simp add: ulp_exponent_def)
qed

lemma to_double_exact:
  assumes "x = of_int m * 2 powr of_int k" "\<bar>m\<bar> < 2 ^ 53" "- 1074 \<le> k" "k \<le> 971"
  shows "to_double x = Fin x"
proof (cases "m = 0")
  case True
  then show ?thesis using assms(1) by (simp add: to_double_def)
next
  case False
  define j where "j = ulp_exponent x"
  have jk: "j \<le> k" unfolding j_def using ulp_exponent_le [OF assms(1) False assms(2,3)] .
  have x0: "x \<noteq> 0" using False assms(1) by simp
  have "x / 2 powr of_int j = of_int m * 2 powr of_int (k - j)"
    using assms(1) by (simp add: powr_diff)
  also have "2 powr real_of_int (k - j) = 2 ^ nat (k - j)"
    using jk by (simp add: powr_realpow [symmetric])
  finally have "x / 2 powr of_int j = of_int (m * 2 ^ nat (k - j))" by simp
  then have "round_half_even (x / 2 powr of_int j) = m * 2 ^ nat (k - j)"
    by (simp only: round_half_even_of_int)
  then have r: "of_int (round_half_even (x / 2 powr of_int j)) * 2 powr of_int j = x"
    using \<open>x / 2 powr of_int j = of_int (m * 2 ^ nat (k - j))\<close>
    by (simp add: field_simps)
  have "\<bar>x\<bar> < 2 ^ 1024"
  proof -
    have m: "\<bar>real_of_int m\<bar> < 2 ^ 53" using assms(2)
      by (metis of_int_abs of_int_less_numeral_power_cancel_iff)
    have "(2::real) powr of_int k \<le> 2 powr of_int 971"
      by (rule powr_mono) (use assms(4) in auto)
    also have "(2::real) powr of_int 971 = 2 ^ 971"
      by (simp add: powr_realpow [symmetric])
    finally have k: "(2::real) powr of_int k \<le> 2 ^ 971" .
    have "\<bar>x\<bar> = \<bar>of_int m\<bar> * 2 powr of_int k" using assms(1) by (simp add: abs_mult)
    also have "\<dots> < 2 ^ 53 * 2 ^ 971"
      by (rule mult_less_le_imp_less [OF m k]) auto
    also have "(2::real) ^ 53 * 2 ^ 971 = 2 ^ 1024"
      by (simp only: power_add [symmetric]) simp
    finally show ?thesis .
  qed
  then have "\<not> 2 ^ 1024 \<le> x" "\<not> x \<le> - (2 ^ 1024)" by linarith+
  then show ?thesis
    using x0 r by (simp add: to_double_def Let_def j_def)
qed

lemma to_double_of_int: "\<bar>n\<bar> < 2 ^ 53 \<Longrightarrow> to_double (of_int n) = Fin (of_int n)"
  using to_double_exact [of "of_int n" n 0] by simp


lemma to_double_numeral:
  "(numeral k :: int) < 2 ^ 53 \<Longrightarrow> to_double (numeral k) = Fin (numeral k)"
  using to_double_of_int [of "numeral k"] by simp

lemma to_double_one: "to_double 1 = Fin 1"
  using to_double_of_int [of 1] by simp

section \<open>Rounding to a double: a bound\<close>

text \<open>Below \<open>2 ^ 1000\<close> in absolute value, \<open>to_double\<close> gives a finite double close by.\<close>

lemma ulp_le:
  assumes "x \<noteq> 0"
  shows "2 powr of_int (ulp_exponent x) \<le> max \<bar>x\<bar> 1"
proof (cases "\<lfloor>log 2 \<bar>x\<bar>\<rfloor> - 52 \<le> - 1074")
  case True
  then have "ulp_exponent x = - 1074" by (simp add: ulp_exponent_def)
  moreover have "(2::real) powr of_int (- 1074) \<le> 2 powr 0"
    by (rule powr_mono) auto
  ultimately show ?thesis by simp
next
  case False
  then have e: "ulp_exponent x = \<lfloor>log 2 \<bar>x\<bar>\<rfloor> - 52" by (simp add: ulp_exponent_def)
  have "of_int (\<lfloor>log 2 \<bar>x\<bar>\<rfloor> - 52) \<le> log 2 \<bar>x\<bar>"
    by (simp, linarith)
  then have "(2::real) powr of_int (\<lfloor>log 2 \<bar>x\<bar>\<rfloor> - 52) \<le> 2 powr (log 2 \<bar>x\<bar>)"
    by (intro powr_mono) auto
  also have "\<dots> = \<bar>x\<bar>" using assms by simp
  finally show ?thesis using e by simp
qed

lemma to_double_bound:
  assumes "\<bar>x\<bar> \<le> 2 ^ 1000"
  shows "\<exists>r. to_double x = Fin r \<and> \<bar>r\<bar> \<le> 2 * \<bar>x\<bar> + 1"
proof (cases "x = 0")
  case True
  then show ?thesis by (simp add: to_double_def)
next
  case False
  define q where "q = (2::real) powr of_int (ulp_exponent x)"
  define r where "r = of_int (round_half_even (x / q)) * q"
  have q0: "0 < q" by (simp add: q_def)
  have qle: "q \<le> max \<bar>x\<bar> 1" unfolding q_def by (rule ulp_le [OF False])
  have "\<bar>of_int (round_half_even (x / q)) - x / q\<bar> \<le> 1 / 2"
    unfolding round_half_even_def Let_def by (auto simp: abs_le_iff; linarith)
  then have "\<bar>of_int (round_half_even (x / q)) - x / q\<bar> * q \<le> 1 / 2 * q"
    using q0 by (intro mult_right_mono) auto
  moreover have "\<bar>of_int (round_half_even (x / q)) - x / q\<bar> * q = \<bar>r - x\<bar>"
    using q0 by (simp add: r_def abs_mult [symmetric] left_diff_distrib del: abs_mult flip: abs_mult)
       (simp add: abs_mult [symmetric] field_simps)
  ultimately have close: "\<bar>r - x\<bar> \<le> q / 2" by simp
  have rb: "\<bar>r\<bar> \<le> \<bar>x\<bar> + max \<bar>x\<bar> 1 / 2" using close qle by linarith
  then have r1: "\<bar>r\<bar> \<le> 2 * \<bar>x\<bar> + 1" by (simp add: max_def split: if_splits)
  have "(2::real) * 2 ^ 1000 + 1 < 2 ^ 1024" by simp
  then have "\<bar>r\<bar> < 2 ^ 1024" using r1 assms by linarith
  then have "\<not> 2 ^ 1024 \<le> r" "\<not> r \<le> - (2 ^ 1024)" by linarith+
  then have "to_double x = Fin r"
    using False by (simp add: to_double_def Let_def q_def r_def)
  then show ?thesis using r1 by blast
qed

section \<open>The evaluator's loop\<close>

lemma evaluate_loop_append:
  "evaluate_loop (pre @ post) variables stack =
     then_do (evaluate_loop pre variables stack) (\<lambda>stack'. evaluate_loop post variables stack')"
proof (induction pre arbitrary: stack)
  case Nil
  show ?case by (simp add: then_do_def)
next
  case (Cons token pre)
  show ?case
    by (cases "tok_type token")
       (auto simp: Cons.IH then_do_def split: sum.splits option.splits list.splits)
qed

lemma truediv_by_zero:
  assumes "is_zero b"
  shows "py_truediv a b = Inl ZeroDivisionError \<or>
         (py_truediv a b = Inl OverflowError \<and> (\<exists>n. a = PyInt n))"
proof (cases b)
  case (PyFloat y)
  with assms have y: "y = Fin 0" by (cases y) (auto simp: is_zero_def)
  show ?thesis
    by (cases a)
       (auto simp: py_truediv_def binary_op_def is_complex_def as_double_def as_complex_def
          then_do_def float_div_def complex_div_def c_quot_def fle_def int_to_double_def PyFloat y
          split: sum.splits pyfloat.splits)
next
  case (PyInt m)
  with assms have m: "m = 0" by (auto simp: is_zero_def)
  have z: "to_double 0 = Fin 0" by (simp add: to_double_def)
  show ?thesis
    by (cases a)
       (auto simp: py_truediv_def binary_op_def is_complex_def as_double_def as_complex_def
          then_do_def float_div_def complex_div_def c_quot_def fle_def int_to_double_def PyInt m z
          int_true_divide_def
          split: sum.splits pyfloat.splits)
next
  case (PyComplex re im)
  with assms have z: "re = Fin 0" "im = Fin 0"
    by (cases re; cases im; auto simp: is_zero_def)+
  show ?thesis
    by (cases a)
       (auto simp: py_truediv_def binary_op_def is_complex_def as_double_def as_complex_def
          then_do_def float_div_def complex_div_def c_quot_def fle_def int_to_double_def PyComplex z
          split: sum.splits pyfloat.splits)
qed

lemma sqrt_outside: "flt x (Fin 0) \<Longrightarrow> math_1 c_sqrt False (PyFloat x) = Inl MathDomainError"
  by (cases x) (auto simp: math_1_def as_double_def then_do_def isnan_def isinf_def isfinite_def)

lemma ln_outside: "fle x (Fin 0) \<Longrightarrow> loghelper c_log (PyFloat x) = Inl MathDomainError"
  by (cases x) (auto simp: loghelper_def math_1_def as_double_def then_do_def isnan_def isinf_def isfinite_def fle_def)

lemma log_outside: "fle x (Fin 0) \<Longrightarrow> loghelper c_log10 (PyFloat x) = Inl MathDomainError"
  by (cases x) (auto simp: loghelper_def math_1_def as_double_def then_do_def isnan_def isinf_def isfinite_def fle_def)

lemma asin_outside: "flt (Fin 1) (fabs x) \<Longrightarrow> math_1 c_asin False (PyFloat x) = Inl MathDomainError"
  by (cases x) (auto simp: math_1_def as_double_def then_do_def isnan_def isinf_def isfinite_def)

lemma acos_outside: "flt (Fin 1) (fabs x) \<Longrightarrow> math_1 c_acos False (PyFloat x) = Inl MathDomainError"
  by (cases x) (auto simp: math_1_def as_double_def then_do_def isnan_def isinf_def isfinite_def)

lemma ef_sqrt: "evaluator_functions ''sqrt'' = Some (math_1 c_sqrt False)"
  by (simp add: evaluator_functions_def)
lemma ef_ln: "evaluator_functions ''ln'' = Some (loghelper c_log)"
  by (simp add: evaluator_functions_def)
lemma ef_log: "evaluator_functions ''log'' = Some (loghelper c_log10)"
  by (simp add: evaluator_functions_def)
lemma ef_asin: "evaluator_functions ''asin'' = Some (math_1 c_asin False)"
  by (simp add: evaluator_functions_def)
lemma ef_acos: "evaluator_functions ''acos'' = Some (math_1 c_acos False)"
  by (simp add: evaluator_functions_def)

lemma function_outside_domain:
  assumes "outside_domain name x"
  shows "\<exists>func. evaluator_functions name = Some func \<and> name \<in> set unary_functions
           \<and> func (PyFloat x) = Inl MathDomainError"
proof -
  from assms consider
      "name = ''sqrt''" "flt x (Fin 0)"
    | "name = ''ln''" "fle x (Fin 0)"
    | "name = ''log''" "fle x (Fin 0)"
    | "name = ''asin''" "flt (Fin 1) (fabs x)"
    | "name = ''acos''" "flt (Fin 1) (fabs x)"
    unfolding outside_domain_def by blast
  then show ?thesis
  proof cases
    case 1 then show ?thesis by (simp add: ef_sqrt sqrt_outside unary_functions_def)
  next
    case 2 then show ?thesis by (simp add: ef_ln ln_outside unary_functions_def)
  next
    case 3 then show ?thesis by (simp add: ef_log log_outside unary_functions_def)
  next
    case 4 then show ?thesis by (simp add: ef_asin asin_outside unary_functions_def)
  next
    case 5 then show ?thesis by (simp add: ef_acos acos_outside unary_functions_def)
  qed
qed

lemma py_pow_floats: "py_pow (PyFloat a) (PyFloat b) = float_pow a b"
  by (simp add: py_pow_def binary_op_def is_complex_def as_double_def then_do_def)

lemma float_pow_negative_fractional:
  assumes "x < 0" and "\<not> is_integer y"
  shows "float_pow (Fin x) (Fin y) = complex_pow (Fin x, Fin 0) (Fin y, Fin 0)"
proof -
  have "y \<noteq> 0" using assms(2) by (auto simp: is_integer_def)
  then show ?thesis
    using assms by (simp add: float_pow_def isnan_def isinf_def)
qed

lemma complex_pow_is_complex: "complex_pow a b = Inr v \<Longrightarrow> is_complex v"
  unfolding complex_pow_def Let_def
  by (auto simp: is_complex_def split: option.splits prod.splits if_splits)

section \<open>The converter's loop\<close>

lemma pop_until_left_paren_eq:
  "pop_until_left_paren out stack =
     (out @ takeWhile not_left_paren stack, dropWhile not_left_paren stack)"
  by (induction stack arbitrary: out) (auto simp: not_left_paren_def)

lemma pop_operators_split:
  "\<exists>popped. pop_operators token out stack = (out @ popped, drop (length popped) stack)
     \<and> popped = take (length popped) stack \<and> (\<forall>t \<in> set popped. tok_type t = OPERATOR)"
proof (induction stack arbitrary: out)
  case Nil
  show ?case by simp
next
  case (Cons top_token stack)
  show ?case
  proof (cases "tok_type top_token = OPERATOR \<and> has_higher_precedence top_token token")
    case True
    from Cons.IH [of "out @ [top_token]"] obtain popped where
      p: "pop_operators token (out @ [top_token]) stack
            = ((out @ [top_token]) @ popped, drop (length popped) stack)"
         "popped = take (length popped) stack" "\<forall>t \<in> set popped. tok_type t = OPERATOR"
      by blast
    show ?thesis
      using True p by (intro exI [of _ "top_token # popped"]) auto
  next
    case False
    then show ?thesis by (intro exI [of _ "[]"]) auto
  qed
qed


lemma pop_operators_parts:
  assumes "pop_operators token out stack = (out', stack')"
  obtains popped where "out' = out @ popped" and "stack = popped @ stack'"
    and "\<forall>t \<in> set popped. tok_type t = OPERATOR"
proof -
  from pop_operators_split [of token out stack] obtain popped where
    p: "pop_operators token out stack = (out @ popped, drop (length popped) stack)"
       "popped = take (length popped) stack" "\<forall>t \<in> set popped. tok_type t = OPERATOR"
    by blast
  from p(1) assms have "out' = out @ popped" "stack' = drop (length popped) stack" by simp_all
  moreover from this p(2) have "stack = popped @ stack'"
    by (metis append_take_drop_id)
  ultimately show thesis using p(3) that by blast
qed

lemma filter_not_left_paren_operators:
  "\<forall>t \<in> set popped. tok_type t = OPERATOR \<Longrightarrow> filter not_left_paren popped = popped"
  by (induction popped) (auto simp: not_left_paren_def)

lemma left_parens_operators:
  "\<forall>t \<in> set popped. tok_type t = OPERATOR \<Longrightarrow> left_parens popped = 0"
  by (induction popped) (auto simp: left_parens_def)

lemma left_parens_append: "left_parens (xs @ ys) = left_parens xs + left_parens ys"
  by (simp add: left_parens_def)

lemma left_parens_takeWhile: "left_parens (takeWhile not_left_paren stack) = 0"
  by (induction stack) (auto simp: left_parens_def not_left_paren_def)

lemma left_parens_dropWhile: "left_parens (dropWhile not_left_paren stack) = left_parens stack"
  by (induction stack) (auto simp: left_parens_def not_left_paren_def)

lemma filter_takeWhile_not_left_paren:
  "filter not_left_paren (takeWhile not_left_paren stack) = takeWhile not_left_paren stack"
  by (induction stack) auto

lemma mset_take_drop_not_left_paren:
  "mset (takeWhile not_left_paren stack) + mset (filter not_left_paren (dropWhile not_left_paren stack))
     = mset (filter not_left_paren stack)"
proof -
  have "filter not_left_paren stack =
        filter not_left_paren (takeWhile not_left_paren stack @ dropWhile not_left_paren stack)"
    by simp
  then show ?thesis
    by (simp only: filter_append mset_append filter_takeWhile_not_left_paren)
qed

lemma dropWhile_head_left_paren:
  "dropWhile not_left_paren stack = paren # rest \<Longrightarrow> tok_type paren = LEFT_PAREN"
  using hd_dropWhile [of not_left_paren stack] by (auto simp: not_left_paren_def)

lemma after_paren_filter:
  "filter not_left_paren (after_paren (dropWhile not_left_paren stack))
     = filter not_left_paren (dropWhile not_left_paren stack)"
proof (cases "dropWhile not_left_paren stack")
  case Nil
  show ?thesis unfolding after_paren_def Nil by simp
next
  case (Cons paren rest)
  from dropWhile_head_left_paren [OF Cons] show ?thesis
    unfolding after_paren_def Cons by (simp add: not_left_paren_def)
qed

lemma after_paren_left_parens:
  "0 < left_parens stack \<Longrightarrow>
   left_parens (after_paren (dropWhile not_left_paren stack)) = left_parens stack - 1"
proof (cases "dropWhile not_left_paren stack")
  case Nil
  assume "0 < left_parens stack"
  moreover from left_parens_dropWhile [of stack] have "left_parens stack = 0"
    unfolding Nil by (simp add: left_parens_def)
  ultimately show ?thesis by simp
next
  case (Cons paren rest)
  from dropWhile_head_left_paren [OF Cons] left_parens_dropWhile [of stack]
  show ?thesis unfolding after_paren_def Cons by (simp add: left_parens_def)
qed


lemma postfix_loop_step:
  "postfix_loop (token # tokens) out stack =
     (if tok_type token = EOF then (out, stack)
      else case postfix_step token out stack of (out', stack') \<Rightarrow> postfix_loop tokens out' stack')"
  by (cases "tok_type token")
     (auto simp: postfix_step_def pop_until_left_paren_eq after_paren_def Let_def
        split: list.splits prod.splits)

lemma postfix_step_mset:
  assumes "postfix_step token out stack = (out', stack')" and "tok_type token \<noteq> EOF"
  shows "mset (filter not_left_paren out') + mset (filter not_left_paren stack') =
         mset (filter not_left_paren out) + mset (filter not_left_paren stack) +
         mset (filter kept [token])"
proof (cases "tok_type token")
  case OPERATOR
  obtain o1 s1 where ps: "pop_operators token out stack = (o1, s1)" by force
  then obtain popped where p: "o1 = out @ popped" "stack = popped @ s1"
    "\<forall>t \<in> set popped. tok_type t = OPERATOR"
    by (rule pop_operators_parts)
  from assms(1) OPERATOR ps have "out' = o1" "stack' = token # s1"
    by (simp_all add: postfix_step_def)
  then show ?thesis
    using p OPERATOR by (simp add: kept_def not_left_paren_def)
next
  case RIGHT_PAREN
  have k: "filter kept [token] = []" using RIGHT_PAREN by (simp add: kept_def is_value_def)
  have m: "mset (takeWhile not_left_paren stack) +
           mset (filter not_left_paren (after_paren (dropWhile not_left_paren stack)))
           = mset (filter not_left_paren stack)"
    by (simp only: after_paren_filter mset_take_drop_not_left_paren)
  show ?thesis
  proof (cases "after_paren (dropWhile not_left_paren stack)")
    case Nil
    with assms(1) RIGHT_PAREN have "out' = out @ takeWhile not_left_paren stack" "stack' = []"
      by (simp_all add: postfix_step_def)
    then show ?thesis using m Nil k by (simp add: filter_takeWhile_not_left_paren)
  next
    case (Cons top_token rest)
    show ?thesis
    proof (cases "tok_type top_token = FUNCTION")
      case True
      with assms(1) RIGHT_PAREN Cons
      have "out' = out @ takeWhile not_left_paren stack @ [top_token]" "stack' = rest"
        by (simp_all add: postfix_step_def)
      then show ?thesis
        using m Cons k True by (simp add: filter_takeWhile_not_left_paren not_left_paren_def)
    next
      case False
      with assms(1) RIGHT_PAREN Cons
      have "out' = out @ takeWhile not_left_paren stack" "stack' = top_token # rest"
        by (simp_all add: postfix_step_def)
      then show ?thesis
        using m Cons k by (simp add: filter_takeWhile_not_left_paren)
    qed
  qed
next
  case COMMA
  with assms(1) have "out' = out @ takeWhile not_left_paren stack"
    "stack' = dropWhile not_left_paren stack"
    by (simp_all add: postfix_step_def pop_until_left_paren_eq)
  then show ?thesis
    using mset_take_drop_not_left_paren [of stack] COMMA
    by (simp add: filter_takeWhile_not_left_paren kept_def is_value_def)
qed (use assms in \<open>auto simp: postfix_step_def kept_def is_value_def not_left_paren_def\<close>)

lemma postfix_step_output:
  assumes "postfix_step token out stack = (out', stack')"
    and "\<forall>t \<in> set out. not_left_paren t"
  shows "\<forall>t \<in> set out'. not_left_paren t"
proof (cases "tok_type token")
  case OPERATOR
  obtain o1 s1 where ps: "pop_operators token out stack = (o1, s1)" by force
  then obtain popped where p: "o1 = out @ popped" "stack = popped @ s1"
    "\<forall>t \<in> set popped. tok_type t = OPERATOR"
    by (rule pop_operators_parts)
  from assms(1) OPERATOR ps have "out' = o1" by (simp add: postfix_step_def)
  then show ?thesis using p assms(2) by (auto simp: not_left_paren_def)
next
  case RIGHT_PAREN
  have t: "\<forall>t \<in> set (takeWhile not_left_paren stack). not_left_paren t"
    by (auto dest: set_takeWhileD)
  show ?thesis
    using assms RIGHT_PAREN t
    by (auto simp: postfix_step_def not_left_paren_def split: list.splits if_splits)
next
  case COMMA
  have t: "\<forall>t \<in> set (takeWhile not_left_paren stack). not_left_paren t"
    by (auto dest: set_takeWhileD)
  show ?thesis
    using assms COMMA t by (auto simp: postfix_step_def pop_until_left_paren_eq)
qed (use assms in \<open>auto simp: postfix_step_def not_left_paren_def\<close>)

lemma postfix_step_left_parens:
  assumes "postfix_step token out stack = (out', stack')"
    and "tok_type token = RIGHT_PAREN \<longrightarrow> 0 < left_parens stack"
  shows "int (left_parens stack') =
         (if tok_type token = LEFT_PAREN then int (left_parens stack) + 1
          else if tok_type token = RIGHT_PAREN then int (left_parens stack) - 1
          else int (left_parens stack))"
proof (cases "tok_type token")
  case OPERATOR
  obtain o1 s1 where ps: "pop_operators token out stack = (o1, s1)" by force
  then obtain popped where p: "o1 = out @ popped" "stack = popped @ s1"
    "\<forall>t \<in> set popped. tok_type t = OPERATOR"
    by (rule pop_operators_parts)
  from assms(1) OPERATOR ps have "stack' = token # s1" by (simp add: postfix_step_def)
  then show ?thesis
    using p OPERATOR left_parens_operators [OF p(3)]
    by (simp add: left_parens_append) (simp add: left_parens_def)
next
  case RIGHT_PAREN
  with assms(2) have pos: "0 < left_parens stack" by simp
  note ap = after_paren_left_parens [OF pos]
  show ?thesis
  proof (cases "after_paren (dropWhile not_left_paren stack)")
    case Nil
    with assms(1) RIGHT_PAREN have s: "stack' = []" by (simp add: postfix_step_def)
    have e: "left_parens ([] :: Token list) = 0" by (simp add: left_parens_def)
    from ap have "left_parens stack - 1 = 0" unfolding Nil e by simp
    with pos have "left_parens stack = 1" by simp
    then show ?thesis using RIGHT_PAREN unfolding s e by simp
  next
    case (Cons top_token rest)
    show ?thesis
    proof (cases "tok_type top_token = FUNCTION")
      case True
      with assms(1) RIGHT_PAREN Cons have s: "stack' = rest" by (simp add: postfix_step_def)
      have "left_parens (top_token # rest) = left_parens rest"
        using True by (simp add: left_parens_def)
      with ap have "left_parens rest = left_parens stack - 1" unfolding Cons by simp
      then show ?thesis using RIGHT_PAREN pos unfolding s by simp
    next
      case False
      with assms(1) RIGHT_PAREN Cons have "stack' = top_token # rest"
        by (simp add: postfix_step_def)
      then show ?thesis using ap Cons RIGHT_PAREN pos by simp
    qed
  qed
next
  case COMMA
  with assms(1) have "stack' = dropWhile not_left_paren stack"
    by (simp add: postfix_step_def pop_until_left_paren_eq)
  then show ?thesis using COMMA by (simp add: left_parens_dropWhile)
qed (use assms in \<open>auto simp: postfix_step_def left_parens_def\<close>)


lemma before_eof_Cons:
  "before_eof (token # tokens) = (if tok_type token = EOF then [] else token # before_eof tokens)"
  by (simp add: before_eof_def)

lemma postfix_loop_mset:
  assumes "postfix_loop tokens out stack = (out', stack')"
  shows "mset (filter not_left_paren out') + mset (filter not_left_paren stack') =
         mset (filter not_left_paren out) + mset (filter not_left_paren stack) +
         mset (filter kept (before_eof tokens))"
  using assms
proof (induction tokens arbitrary: out stack)
  case Nil
  then show ?case by (simp add: before_eof_def)
next
  case (Cons token tokens)
  show ?case
  proof (cases "tok_type token = EOF")
    case True
    with Cons.prems show ?thesis by (simp add: postfix_loop_step before_eof_Cons del: postfix_loop.simps)
  next
    case False
    obtain o1 s1 where st: "postfix_step token out stack = (o1, s1)" by force
    with Cons.prems False have "postfix_loop tokens o1 s1 = (out', stack')"
      by (simp add: postfix_loop_step del: postfix_loop.simps)
    from Cons.IH [OF this] postfix_step_mset [OF st False] show ?thesis
      using False by (simp add: before_eof_Cons)
  qed
qed

lemma postfix_loop_output:
  assumes "postfix_loop tokens out stack = (out', stack')"
    and "\<forall>t \<in> set out. not_left_paren t"
  shows "\<forall>t \<in> set out'. not_left_paren t"
  using assms
proof (induction tokens arbitrary: out stack)
  case Nil
  then show ?case by simp
next
  case (Cons token tokens)
  show ?case
  proof (cases "tok_type token = EOF")
    case True
    with Cons.prems show ?thesis by (simp add: postfix_loop_step del: postfix_loop.simps)
  next
    case False
    obtain o1 s1 where st: "postfix_step token out stack = (o1, s1)" by force
    with Cons.prems False have "postfix_loop tokens o1 s1 = (out', stack')"
      by (simp add: postfix_loop_step del: postfix_loop.simps)
    from Cons.IH [OF this postfix_step_output [OF st Cons.prems(2)]] show ?thesis .
  qed
qed

lemma validate_loop_Cons:
  assumes "validate_loop (token # tokens) paren_count prev = Inr r"
    and "tok_type token \<noteq> EOF"
  shows "validate_loop tokens
           (if tok_type token = LEFT_PAREN then paren_count + 1
            else if tok_type token = RIGHT_PAREN then paren_count - 1
            else paren_count) (Some token) = Inr r"
    and "tok_type token = RIGHT_PAREN \<longrightarrow> 0 < paren_count"
  using assms by (auto simp: Let_def split: if_splits)

lemma postfix_loop_left_parens:
  assumes "validate_loop tokens (int (left_parens stack)) prev = Inr (c, p)"
    and "postfix_loop tokens out stack = (out', stack')"
  shows "int (left_parens stack') = c"
  using assms
proof (induction tokens arbitrary: out stack prev)
  case Nil
  then show ?case by simp
next
  case (Cons token tokens)
  show ?case
  proof (cases "tok_type token = EOF")
    case True
    with Cons.prems show ?thesis by (simp add: postfix_loop_step del: postfix_loop.simps)
  next
    case False
    obtain o1 s1 where st: "postfix_step token out stack = (o1, s1)" by force
    with Cons.prems False have pl: "postfix_loop tokens o1 s1 = (out', stack')"
      by (simp add: postfix_loop_step del: postfix_loop.simps)
      note v = validate_loop_Cons [OF Cons.prems(1) False]
    from v(2) have "tok_type token = RIGHT_PAREN \<longrightarrow> 0 < left_parens stack" by simp
    from postfix_step_left_parens [OF st this] v(1)
    have "validate_loop tokens (int (left_parens s1)) (Some token) = Inr (c, p)" by simp
    from Cons.IH [OF this pl] show ?thesis .
  qed
qed

lemma validate_syntax_None:
  assumes "validate_syntax tokens = None"
  obtains p where "validate_loop tokens 0 None = Inr (0, p)"
  using assms
  by (auto simp: validate_syntax_def split: if_splits sum.splits prod.splits)

lemma filter_not_left_paren_id:
  "left_parens stack = 0 \<Longrightarrow> filter not_left_paren stack = stack"
  by (induction stack) (auto simp: left_parens_def not_left_paren_def split: if_splits)

lemma parse_to_postfix_mset:
  assumes "validate_syntax tokens = None"
  shows "mset (parse_to_postfix tokens) = mset (filter kept (before_eof tokens))"
proof -
  obtain out stack where pl: "postfix_loop tokens [] [] = (out, stack)" by force
  from assms obtain p where "validate_loop tokens 0 None = Inr (0, p)"
    by (rule validate_syntax_None)
  then have "validate_loop tokens (int (left_parens [])) None = Inr (0, p)"
    by (simp add: left_parens_def)
  from postfix_loop_left_parens [OF this pl] have "left_parens stack = 0" by simp
  then have s: "filter not_left_paren stack = stack" by (rule filter_not_left_paren_id)
  from postfix_loop_output [OF pl] have o: "filter not_left_paren out = out" by simp
  from postfix_loop_mset [OF pl] have "mset out + mset stack = mset (filter kept (before_eof tokens))"
    by (simp add: s o)
  then show ?thesis by (simp add: parse_to_postfix_def pl)
qed

lemma length_filter_kept:
  "length (filter kept tokens) =
     (count_type NUMBER tokens + count_type VARIABLE tokens + count_type CONSTANT tokens)
     + count_type OPERATOR tokens + count_type FUNCTION tokens"
  by (induction tokens) (auto simp: kept_def is_value_def count_type_def)

section \<open>The validator's loop\<close>

lemma violation_from_end: "length body \<le> k \<Longrightarrow> violation_from body k = None"
  by (simp add: violation_from_def)

lemma violation_from_step:
  "k < length body \<Longrightarrow>
   violation_from body k =
     (case violation body k of Some e \<Rightarrow> Some e | None \<Rightarrow> violation_from body (Suc k))"
  by (auto simp: violation_from_def upt_conv_Cons split: option.splits)

lemma validate_loop_before_eof:
  "validate_loop tokens paren_count prev = validate_loop (before_eof tokens) paren_count prev"
proof (induction tokens arbitrary: paren_count prev)
  case Nil
  show ?case by (simp add: before_eof_def)
next
  case (Cons token tokens)
  show ?case
    by (cases "tok_type token = EOF") (simp_all add: before_eof_Cons Let_def Cons.IH)
qed

lemma before_eof_no_eof: "\<forall>t \<in> set (before_eof tokens). tok_type t \<noteq> EOF"
  by (auto simp: before_eof_def dest: set_takeWhileD)

lemma paren_depth_snoc:
  "paren_depth (pre @ [token]) =
     (if tok_type token = LEFT_PAREN then paren_depth pre + 1
      else if tok_type token = RIGHT_PAREN then paren_depth pre - 1
      else paren_depth pre)"
  by (simp add: paren_depth_def count_type_def)

lemma violation_at:
  "violation (pre @ token # rest) (length pre) =
     (if tok_type token = RIGHT_PAREN \<and> paren_depth (pre @ [token]) < 0 then
        Some (UnmatchedClosing (tok_position token))
      else if (case last_token pre of None \<Rightarrow> False | Some prev \<Rightarrow> tok_type prev = OPERATOR)
              \<and> tok_type token = OPERATOR then
        Some (ConsecutiveOperators (tok_position token))
      else if tok_type token = FUNCTION
              \<and> (case last_token pre of None \<Rightarrow> False
                  | Some prev \<Rightarrow> tok_type prev \<notin> {OPERATOR, LEFT_PAREN, COMMA}) then
        Some (InvalidFunctionCall (tok_position token))
      else None)"
proof (cases "pre = []")
  case True
  then show ?thesis by (simp add: violation_def last_token_def)
next
  case False
  then have "(pre @ token # rest) ! (length pre - 1) = last pre"
    by (simp add: nth_append last_conv_nth)
  with False show ?thesis
    by (simp add: violation_def last_token_def Let_def)
qed

lemma validate_loop_violation:
  assumes "\<forall>t \<in> set rest. tok_type t \<noteq> EOF"
  shows "validate_loop rest (paren_depth pre) (last_token pre) =
     (case violation_from (pre @ rest) (length pre) of
        Some e \<Rightarrow> Inl e
      | None \<Rightarrow> Inr (paren_depth (pre @ rest), last_token (pre @ rest)))"
  using assms
proof (induction rest arbitrary: pre)
  case Nil
  show ?case by (simp add: violation_from_end)
next
  case (Cons token rest)
  have IH: "validate_loop rest (paren_depth (pre @ [token])) (Some token) =
     (case violation_from (pre @ token # rest) (Suc (length pre)) of
        Some e \<Rightarrow> Inl e
      | None \<Rightarrow> Inr (paren_depth (pre @ token # rest), last_token (pre @ token # rest)))"
    using Cons.IH [of "pre @ [token]"] Cons.prems
    by (simp add: last_token_def split: option.splits)
  have ne: "tok_type token \<noteq> EOF" using Cons.prems by simp
  have step: "violation_from (pre @ token # rest) (length pre) =
      (case violation (pre @ token # rest) (length pre) of
         Some e \<Rightarrow> Some e
       | None \<Rightarrow> violation_from (pre @ token # rest) (Suc (length pre)))"
    by (rule violation_from_step) simp
  show ?case
    unfolding step violation_at
    using ne IH
    by (simp add: Let_def paren_depth_snoc)
qed

section \<open>The tokenizer's loop\<close>

lemma tokenize_loop_next:
  "position < length expression \<Longrightarrow>
   tokenize_loop expression position tokens =
     (case next_token expression position of
        (None, new_pos) \<Rightarrow> tokenize_loop expression new_pos tokens
      | (Some t, new_pos) \<Rightarrow> tokenize_loop expression new_pos (tokens @ [t]))"
  by (subst tokenize_loop.simps)
     (simp add: next_token_def Let_def split: prod.splits)

lemma tokenize_loop_end:
  "\<not> position < length expression \<Longrightarrow>
   tokenize_loop expression position tokens = tokens @ [mk_token EOF '''' position]"
  by (subst tokenize_loop.simps) simp

lemma slice_self:
  "slice expression start (start + length (slice expression start end)) = slice expression start end"
  by (simp add: slice_def min_def)

lemma slice_one:
  "position < length expression \<Longrightarrow>
   slice expression position (position + 1) = [expression ! position]"
  using Cons_nth_drop_Suc [of position expression, symmetric] by (simp add: slice_def)

lemma slice_two:
  "position + 1 < length expression \<Longrightarrow>
   slice expression position (position + 2) = [expression ! position, expression ! (position + 1)]"
proof -
  assume a: "position + 1 < length expression"
  then have "drop position expression =
    expression ! position # expression ! (position + 1) # drop (position + 2) expression"
    by (metis Cons_nth_drop_Suc Suc_eq_plus1 Suc_lessD add_2_eq_Suc')
  then show ?thesis by (simp add: slice_def)
qed

lemma slice_nonempty:
  "start < end \<Longrightarrow> start < length expression \<Longrightarrow> slice expression start end \<noteq> []"
  by (simp add: slice_def)

lemma next_token_bounds:
  assumes "position < length expression"
    and "next_token expression position = (t, new_pos)"
  shows "position < new_pos" and "new_pos \<le> length expression"
proof -
  have n1: "position < parse_number_loop expression position False"
    if "isdigit (expression ! position) \<or> expression ! position = CHR ''.''"
    using parse_number_loop_step [OF assms(1) that] .
  have n2: "parse_number_loop expression position False \<le> length expression"
    using parse_number_loop_le [of position expression False] assms(1) by simp
  have i1: "position < scan_while (\<lambda>c. isalnum c \<or> c = CHR ''_'') expression position"
    if "isalpha (expression ! position)"
    using scan_while_step [of position expression "\<lambda>c. isalnum c \<or> c = CHR ''_''"] assms(1) that
    by (simp add: isalnum_def)
  have i2: "scan_while (\<lambda>c. isalnum c \<or> c = CHR ''_'') expression position \<le> length expression"
    using scan_while_le [of position expression] assms(1) by simp
  show "position < new_pos"
    using assms n1 i1
    by (auto simp: next_token_def Let_def parse_number_def parse_identifier_def
        split: if_splits)
  show "new_pos \<le> length expression"
    using assms n2 i2
    by (auto simp: next_token_def Let_def parse_number_def parse_identifier_def
        split: if_splits)
qed

lemma next_token_at:
  assumes "position < length expression"
    and "next_token expression position = (Some t, new_pos)"
  shows "token_at expression t" and "tok_position t = position"
proof -
  have n1: "position < parse_number_loop expression position False"
    if "isdigit (expression ! position) \<or> expression ! position = CHR ''.''"
    using parse_number_loop_step [OF assms(1) that] .
  have i1: "position < scan_while (\<lambda>c. isalnum c \<or> c = CHR ''_'') expression position"
    if "isalpha (expression ! position)"
    using scan_while_step [of position expression "\<lambda>c. isalnum c \<or> c = CHR ''_''"] assms(1) that
    by (simp add: isalnum_def)
  show "tok_position t = position"
    using assms
    by (auto simp: next_token_def Let_def parse_number_def parse_identifier_def mk_token_def
        split: if_splits)
  show "token_at expression t"
    using assms n1 i1 slice_one [OF assms(1)] slice_two [of position expression]
    by (auto simp: next_token_def Let_def parse_number_def parse_identifier_def mk_token_def
        token_at_def slice_self slice_nonempty
        split: if_splits)
qed


lemma tokenize_loop_tokens:
  assumes "position \<le> length expression"
    and "\<forall>t \<in> set tokens. token_at expression t"
  shows "\<forall>t \<in> set (tokenize_loop expression position tokens). token_at expression t"
  using assms
proof (induction "length expression - position" arbitrary: position tokens rule: less_induct)
  case less
  show ?case
  proof (cases "position < length expression")
    case False
    with less.prems(1) have "position = length expression" by simp
    then show ?thesis
      using less.prems(2) False
      by (simp add: tokenize_loop_end token_at_def mk_token_def)
  next
    case True
    obtain t new_pos where nt: "next_token expression position = (t, new_pos)" by force
    note b = next_token_bounds [OF True nt]
    have smaller: "length expression - new_pos < length expression - position"
      using b True by simp
    show ?thesis
    proof (cases t)
      case None
      with nt True have "tokenize_loop expression position tokens =
                         tokenize_loop expression new_pos tokens"
        by (simp add: tokenize_loop_next)
      with less.hyps [OF smaller b(2) less.prems(2)] show ?thesis by simp
    next
      case (Some tok)
      with nt True have e: "tokenize_loop expression position tokens =
                            tokenize_loop expression new_pos (tokens @ [tok])"
        by (simp add: tokenize_loop_next)
      from next_token_at(1) [OF True nt [unfolded Some]] less.prems(2)
      have "\<forall>t \<in> set (tokens @ [tok]). token_at expression t" by simp
      from less.hyps [OF smaller b(2) this] e show ?thesis by simp
    qed
  qed
qed

text \<open>The tokenizer's output ends with its only EOF token.\<close>

lemma next_token_not_eof:
  "next_token expression position = (Some t, new_pos) \<Longrightarrow> tok_type t \<noteq> EOF"
  by (auto simp: next_token_def Let_def mk_token_def split: if_splits prod.splits)

lemma tokenize_loop_shape:
  assumes "position \<le> length expression"
  shows "\<exists>ts. tokenize_loop expression position tokens
                = tokens @ ts @ [mk_token EOF [] (length expression)]
              \<and> (\<forall>t \<in> set ts. tok_type t \<noteq> EOF)"
  using assms
proof (induction "length expression - position" arbitrary: position tokens rule: less_induct)
  case less
  show ?case
  proof (cases "position < length expression")
    case False
    with less.prems have "position = length expression" by simp
    then show ?thesis
      using False by (intro exI [of _ "[]"]) (simp add: tokenize_loop_end)
  next
    case True
    obtain t new_pos where nt: "next_token expression position = (t, new_pos)" by force
    note b = next_token_bounds [OF True nt]
    have smaller: "length expression - new_pos < length expression - position"
      using b True by simp
    show ?thesis
    proof (cases t)
      case None
      with nt True have "tokenize_loop expression position tokens =
                         tokenize_loop expression new_pos tokens"
        by (simp add: tokenize_loop_next)
      with less.hyps [OF smaller b(2), of tokens] show ?thesis by simp
    next
      case (Some tok)
      with nt True have e: "tokenize_loop expression position tokens =
                            tokenize_loop expression new_pos (tokens @ [tok])"
        by (simp add: tokenize_loop_next)
      from less.hyps [OF smaller b(2), of "tokens @ [tok]"] obtain ts where
        ts: "tokenize_loop expression new_pos (tokens @ [tok])
               = (tokens @ [tok]) @ ts @ [mk_token EOF [] (length expression)]"
            "\<forall>t \<in> set ts. tok_type t \<noteq> EOF"
        by blast
      have "tok_type tok \<noteq> EOF" using nt Some by (auto dest: next_token_not_eof)
      with ts e show ?thesis by (intro exI [of _ "tok # ts"]) simp
    qed
  qed
qed

lemma before_eof_tokenize: "before_eof (tokenize expression) = butlast (tokenize expression)"
proof -
  from tokenize_loop_shape [of 0 "filter (\<lambda>c. c \<noteq> CHR '' '') expression" "[]"]
  obtain ts where
    ts: "tokenize expression
           = ts @ [mk_token EOF [] (length (filter (\<lambda>c. c \<noteq> CHR '' '') expression))]"
        "\<forall>t \<in> set ts. tok_type t \<noteq> EOF"
    by (auto simp: tokenize_def)
  have "before_eof (ts @ [mk_token EOF [] n]) = ts" for n
    using ts(2) by (simp add: before_eof_def takeWhile_append2 mk_token_def)
  then show ?thesis by (simp add: ts(1) butlast_append)
qed

text \<open>
  The tokens before the final EOF tile the expression that the loop scans: a pass that
  appends no token steps over a skipped character, and a pass that appends one finds a
  character that is not skipped and moves to the end of the token's text.
\<close>

lemma skipped_run_skip:
  assumes "position < length expression" and "skipped (expression ! position)"
  shows "position + length (takeWhile skipped (drop position expression)) =
         Suc position + length (takeWhile skipped (drop (Suc position) expression))"
  using assms Cons_nth_drop_Suc [of position expression, symmetric] by simp

lemma skipped_run_stop:
  assumes "position < length expression" and "\<not> skipped (expression ! position)"
  shows "position + length (takeWhile skipped (drop position expression)) = position"
  using assms Cons_nth_drop_Suc [of position expression, symmetric] by simp

lemma tiled_skip:
  assumes "position < length expression" and "skipped (expression ! position)"
    and "tiled expression (Suc position) ts"
  shows "tiled expression position ts"
proof (cases ts)
  case Nil
  with assms(3) skipped_run_skip [OF assms(1,2)] show ?thesis by simp
next
  case (Cons t list)
  show ?thesis
    using assms(3) unfolding Cons tiled.simps skipped_run_skip [OF assms(1,2)] .
qed

lemma next_token_None:
  assumes "next_token expression position = (None, new_pos)"
  shows "skipped (expression ! position)" and "new_pos = Suc position"
  using assms
  by (auto simp: next_token_def Let_def skipped_def split: if_splits prod.splits)

lemma next_token_Some:
  assumes "position < length expression"
    and "next_token expression position = (Some t, new_pos)"
  shows "\<not> skipped (expression ! position)" and "tok_type t \<noteq> EOF"
    and "new_pos = position + length (tok_value t)"
proof -
  show "\<not> skipped (expression ! position)"
    using assms(2)
    by (auto simp: next_token_def Let_def skipped_def split: if_splits prod.splits)
  show "tok_type t \<noteq> EOF"
    using assms(2)
    by (auto simp: next_token_def Let_def mk_token_def split: if_splits prod.splits)
  have n2: "parse_number_loop expression position False \<le> length expression"
    using parse_number_loop_le [of position expression False] assms(1) by simp
  have n1: "position \<le> parse_number_loop expression position False"
    by (rule parse_number_loop_ge)
  have i2: "scan_while (\<lambda>c. isalnum c \<or> c = CHR ''_'') expression position \<le> length expression"
    using scan_while_le [of position expression] assms(1) by simp
  have i1: "position \<le> scan_while (\<lambda>c. isalnum c \<or> c = CHR ''_'') expression position"
    by (rule scan_while_ge)
  show "new_pos = position + length (tok_value t)"
    using assms n1 n2 i1 i2
    by (auto simp: next_token_def Let_def parse_number_def parse_identifier_def mk_token_def
        slice_def min_def split: if_splits)
qed

lemma tokenize_loop_tiled:
  assumes "position \<le> length expression"
  shows "\<exists>ts. tokenize_loop expression position tokens
                = tokens @ ts @ [mk_token EOF [] (length expression)]
              \<and> tiled expression position ts"
  using assms
proof (induction "length expression - position" arbitrary: position tokens rule: less_induct)
  case less
  show ?case
  proof (cases "position < length expression")
    case False
    with less.prems have "position = length expression" by simp
    then show ?thesis
      using False by (intro exI [of _ "[]"]) (simp add: tokenize_loop_end)
  next
    case True
    obtain t new_pos where nt: "next_token expression position = (t, new_pos)" by force
    note b = next_token_bounds [OF True nt]
    have smaller: "length expression - new_pos < length expression - position"
      using b True by simp
    show ?thesis
    proof (cases t)
      case None
      note n = next_token_None [OF nt [unfolded None]]
      from nt None True have e: "tokenize_loop expression position tokens =
                                 tokenize_loop expression new_pos tokens"
        by (simp add: tokenize_loop_next)
      from less.hyps [OF smaller b(2), of tokens] obtain ts where
        ts: "tokenize_loop expression new_pos tokens
               = tokens @ ts @ [mk_token EOF [] (length expression)]"
            "tiled expression new_pos ts"
        by blast
      from ts(2) n(2) have "tiled expression position ts"
        using tiled_skip [OF True n(1)] by simp
      with ts(1) e show ?thesis by auto
    next
      case (Some tok)
      note s = next_token_Some [OF True nt [unfolded Some]]
      note a = next_token_at [OF True nt [unfolded Some]]
      from nt Some True have e: "tokenize_loop expression position tokens =
                                 tokenize_loop expression new_pos (tokens @ [tok])"
        by (simp add: tokenize_loop_next)
      from less.hyps [OF smaller b(2), of "tokens @ [tok]"] obtain ts where
        ts: "tokenize_loop expression new_pos (tokens @ [tok])
               = (tokens @ [tok]) @ ts @ [mk_token EOF [] (length expression)]"
            "tiled expression new_pos ts"
        by blast
      have v: "tok_value tok \<noteq> []"
        "slice expression (tok_position tok) (tok_position tok + length (tok_value tok))
           = tok_value tok"
        using a(1) s(2) by (simp_all add: token_at_def)
      have "tiled expression (tok_position tok + length (tok_value tok)) ts"
        using ts(2) s(3) a(2) by simp
      moreover have "tok_position tok < length expression" using True a(2) by simp
      ultimately have "tiled expression position (tok # ts)"
        unfolding tiled.simps skipped_run_stop [OF True s(1)]
        using s(2) a(2) v by (intro conjI)
      moreover have "tokenize_loop expression position tokens
                       = tokens @ (tok # ts) @ [mk_token EOF [] (length expression)]"
        using ts(1) e by simp
      ultimately show ?thesis by blast
    qed
  qed
qed

section \<open>Numeric literals and operators in an expression\<close>

lemma scan_while_context:
  assumes "rest = [] \<or> \<not> P (hd rest)" and "j \<le> length a"
  shows "scan_while P (pre @ a @ rest) (length pre + j) = length pre + scan_while P a j"
  using assms
proof (induction P a j rule: scan_while.induct)
  case (1 P a j)
  show ?case
  proof (cases "j < length a")
    case True
    then have n: "(pre @ a @ rest) ! (length pre + j) = a ! j"
      by (simp add: nth_append)
    show ?thesis
    proof (cases "P (a ! j)")
      case Pt: True
      have "scan_while P (pre @ a @ rest) (length pre + j) =
            scan_while P (pre @ a @ rest) (length pre + j + 1)"
        using True Pt n by (intro scan_while_continue) auto
      moreover have "scan_while P a j = scan_while P a (j + 1)"
        using True Pt by (intro scan_while_continue) auto
      moreover have "scan_while P (pre @ a @ rest) (length pre + (j + 1)) =
                     length pre + scan_while P a (j + 1)"
        using "1.IH" True Pt "1.prems"(1) by simp
      ultimately show ?thesis by (simp add: add.assoc)
    next
      case False
      have "scan_while P (pre @ a @ rest) (length pre + j) = length pre + j"
        using False n by (intro scan_while_stop) auto
      moreover have "scan_while P a j = j"
        using False by (intro scan_while_stop) auto
      ultimately show ?thesis by simp
    qed
  next
    case False
    with "1.prems"(2) have j: "j = length a" by simp
    have "scan_while P a j = j" using False by (intro scan_while_stop) auto
    moreover have "scan_while P (pre @ a @ rest) (length pre + j) = length pre + j"
    proof (cases rest)
      case Nil
      then show ?thesis using j by (intro scan_while_stop) auto
    next
      case (Cons r rest')
      with "1.prems"(1) have "\<not> P r" by simp
      moreover have "(pre @ a @ rest) ! (length pre + j) = r"
        using j Cons by (simp add: nth_append)
      ultimately show ?thesis by (intro scan_while_stop) auto
    qed
    ultimately show ?thesis by simp
  qed
qed


lemma parse_number_loop_context:
  assumes "parse_number_loop a k has_decimal = length a"
    and "k \<le> length a"
    and "rest = [] \<or> delimiter (hd rest)"
  shows "parse_number_loop (pre @ a @ rest) (length pre + k) has_decimal = length pre + length a"
  using assms
proof (induction a k has_decimal rule: parse_number_loop.induct)
  case (1 a k has_decimal)
  let ?e = "pre @ a @ rest"
  show ?case
  proof (cases "k < length a")
    case False
    with "1.prems"(2) have k: "k = length a" by simp
    show ?thesis
    proof (cases rest)
      case Nil
      then show ?thesis using k by (subst parse_number_loop.simps) simp
    next
      case (Cons r rest')
      with "1.prems"(3) have "delimiter r" by simp
      moreover have "?e ! (length pre + k) = r" using k Cons by (simp add: nth_append)
      ultimately show ?thesis
        using k by (subst parse_number_loop.simps) (simp add: delimiter_def Let_def)
    qed
  next
    case True
    then have n: "?e ! (length pre + k) = a ! k" by (simp add: nth_append)
    have lt: "length pre + k < length ?e" using True by simp
    show ?thesis
    proof (cases "isdigit (a ! k)")
      case d: True
      from "1.prems"(1) True d have "parse_number_loop a (k + 1) has_decimal = length a"
        by (subst (asm) parse_number_loop.simps) (simp add: Let_def)
      from "1.IH"(1) [OF True refl d this] True "1.prems"(3)
      have "parse_number_loop ?e (length pre + (k + 1)) has_decimal = length pre + length a"
        by simp
      then show ?thesis
        using lt n d by (subst parse_number_loop.simps) (simp add: Let_def add.assoc)
    next
      case nd: False
      show ?thesis
      proof (cases "a ! k = CHR ''.'' \<and> \<not> has_decimal")
        case p: True
        from "1.prems"(1) True nd p have "parse_number_loop a (k + 1) True = length a"
          by (subst (asm) parse_number_loop.simps) (simp add: Let_def)
        from "1.IH"(2) [OF True refl nd p this] True "1.prems"(3)
        have "parse_number_loop ?e (length pre + (k + 1)) True = length pre + length a"
          by simp
        then show ?thesis
          using lt n nd p by (subst parse_number_loop.simps) (simp add: Let_def add.assoc)
      next
        case np: False
        show ?thesis
        proof (cases "lower (a ! k) = CHR ''e'' \<and> k + 1 < length a")
          case False
          with "1.prems"(1) True nd np have "k = length a"
            by (subst (asm) parse_number_loop.simps) (auto simp: Let_def)
          with True show ?thesis by simp
        next
          case e: True
          define end2 where "end2 = (if a ! (k + 1) \<in> set ''+-'' then k + 1 + 1 else k + 1)"
          have end2_le: "end2 \<le> length a" using e by (simp add: end2_def)
          from "1.prems"(1) True nd np e have alone: "scan_while isdigit a end2 = length a"
            by (subst (asm) parse_number_loop.simps) (auto simp: Let_def end2_def split: if_splits)
          have nondigit: "rest = [] \<or> \<not> isdigit (hd rest)"
            using "1.prems"(3) by (auto simp: delimiter_def)
          have ctx: "scan_while isdigit ?e (length pre + end2) = length pre + length a"
            using scan_while_context [of rest isdigit end2 a pre, OF nondigit end2_le] alone by simp
          have n1: "?e ! (length pre + k + 1) = a ! (k + 1)"
            using e by (simp add: nth_append)
          have "parse_number_loop ?e (length pre + k) has_decimal =
                scan_while isdigit ?e (length pre + end2)"
            using lt n nd np e n1
            by (subst parse_number_loop.simps) (auto simp: Let_def end2_def add.assoc)
          with ctx show ?thesis by simp
        qed
      qed
    qed
  qed
qed


lemma slice_middle: "slice (pre @ a @ rest) (length pre) (length pre + length a) = a"
  by (simp add: slice_def)

lemma next_token_literal:
  assumes "numeric_literal a" and "rest = [] \<or> delimiter (hd rest)"
  shows "next_token (pre @ a @ rest) (length pre) =
           (Some (mk_token NUMBER a (length pre)), length pre + length a)"
proof -
  from assms(1) have a: "a \<noteq> []" "isdigit (hd a) \<or> hd a = CHR ''.''"
    "parse_number_loop a 0 False = length a"
    by (simp_all add: numeric_literal_def)
  have c: "(pre @ a @ rest) ! length pre = hd a"
    using a(1) by (simp add: nth_append hd_conv_nth)
  have "parse_number_loop (pre @ a @ rest) (length pre + 0) False = length pre + length a"
    by (rule parse_number_loop_context [OF a(3) _ assms(2)]) simp
  then have "parse_number (pre @ a @ rest) (length pre) = (a, length pre + length a)"
    by (simp add: parse_number_def Let_def slice_middle)
  then show ?thesis
    using c a(2) by (simp add: next_token_def Let_def)
qed

lemma operator_cases:
  assumes "parser_operators op = Some (prec, assoc)"
  shows "op = ''+'' \<or> op = ''-'' \<or> op = ''*'' \<or> op = ''/'' \<or> op = ''^'' \<or> op = ''**''"
  using assms by (simp add: parser_operators_def split: if_splits)

lemma next_token_operator:
  assumes "parser_operators op = Some (prec, assoc)"
    and "rest = [] \<or> hd rest \<noteq> CHR ''*''"
  shows "next_token (pre @ op @ rest) (length pre) =
           (Some (mk_token OPERATOR op (length pre)), length pre + length op)"
proof -
  have star: "(pre @ ''*'' @ rest) ! Suc (length pre) \<noteq> CHR ''*''" if "rest \<noteq> []"
    using that assms(2) by (simp add: nth_append hd_conv_nth)
  from operator_cases [OF assms(1)] show ?thesis
  proof (elim disjE)
    assume "op = ''*''"
    then show ?thesis
      using star by (cases "rest = []") (simp_all add: next_token_def Let_def isdigit_def isalpha_def nth_append)
  next
    assume "op = ''**''"
    then show ?thesis
      by (simp add: next_token_def Let_def isdigit_def isalpha_def nth_append)
  qed (simp_all add: next_token_def Let_def isdigit_def isalpha_def nth_append)
qed

lemma next_token_left_paren:
  "next_token (pre @ ''('' @ rest) (length pre) =
     (Some (mk_token LEFT_PAREN ''('' (length pre)), length pre + 1)"
  by (simp add: next_token_def Let_def isdigit_def isalpha_def nth_append)

lemma next_token_right_paren:
  "next_token (pre @ '')'' @ rest) (length pre) =
     (Some (mk_token RIGHT_PAREN '')'' (length pre)), length pre + 1)"
  by (simp add: next_token_def Let_def isdigit_def isalpha_def nth_append)

lemma tokenize_loop_lexeme:
  assumes "next_token (pre @ x @ rest) (length pre) = (Some t, length pre + length x)"
    and "x \<noteq> []"
  shows "tokenize_loop (pre @ x @ rest) (length pre) tokens =
         tokenize_loop (pre @ x @ rest) (length pre + length x) (tokens @ [t])"
  using assms by (simp add: tokenize_loop_next)

lemma numeric_literal_start:
  "numeric_literal a \<Longrightarrow> a \<noteq> [] \<and> hd a \<noteq> CHR ''*'' \<and> \<not> delimiter (hd a)"
  by (auto simp: numeric_literal_def delimiter_def isdigit_def)

lemma operator_start:
  "parser_operators op = Some (prec, assoc) \<Longrightarrow> op \<noteq> [] \<and> delimiter (hd op)"
  by (drule operator_cases) (auto simp: delimiter_def isdigit_def lower_def)

lemma tokenize_literal_step:
  assumes "numeric_literal a" and "rest = [] \<or> delimiter (hd rest)"
  shows "tokenize_loop (pre @ a @ rest) (length pre) tokens =
         tokenize_loop (pre @ a @ rest) (length pre + length a)
           (tokens @ [mk_token NUMBER a (length pre)])"
  using next_token_literal [OF assms] numeric_literal_start [OF assms(1)]
  by (intro tokenize_loop_lexeme) simp_all

lemma tokenize_operator_step:
  assumes "parser_operators op = Some (prec, assoc)" and "rest = [] \<or> hd rest \<noteq> CHR ''*''"
  shows "tokenize_loop (pre @ op @ rest) (length pre) tokens =
         tokenize_loop (pre @ op @ rest) (length pre + length op)
           (tokens @ [mk_token OPERATOR op (length pre)])"
  using next_token_operator [OF assms] operator_start [OF assms(1)]
  by (intro tokenize_loop_lexeme) simp_all

lemma tokenize_left_paren_step:
  "tokenize_loop (pre @ ''('' @ rest) (length pre) tokens =
   tokenize_loop (pre @ ''('' @ rest) (length pre + 1)
     (tokens @ [mk_token LEFT_PAREN ''('' (length pre)])"
  using next_token_left_paren [of pre rest]
  by (simp add: tokenize_loop_next)

lemma tokenize_right_paren_step:
  "tokenize_loop (pre @ '')'' @ rest) (length pre) tokens =
   tokenize_loop (pre @ '')'' @ rest) (length pre + 1)
     (tokens @ [mk_token RIGHT_PAREN '')'' (length pre)])"
  using next_token_right_paren [of pre rest]
  by (simp add: tokenize_loop_next)

lemma tokenize_plain:
  assumes "numeric_literal a" "numeric_literal b" "numeric_literal c"
    and "parser_operators op1 = Some (prec1, assoc1)"
    and "parser_operators op2 = Some (prec2, assoc2)"
  shows "tokenize_loop (a @ op1 @ b @ op2 @ c) 0 [] =
    [mk_token NUMBER a 0,
     mk_token OPERATOR op1 (length a),
     mk_token NUMBER b (length a + length op1),
     mk_token OPERATOR op2 (length a + length op1 + length b),
     mk_token NUMBER c (length a + length op1 + length b + length op2),
     mk_token EOF [] (length a + length op1 + length b + length op2 + length c)]"
proof -
  let ?e = "a @ op1 @ b @ op2 @ c"
  note sa = numeric_literal_start [OF assms(1)]
  note sb = numeric_literal_start [OF assms(2)]
  note sc = numeric_literal_start [OF assms(3)]
  note s1 = operator_start [OF assms(4)]
  note s2 = operator_start [OF assms(5)]
  have "tokenize_loop ([] @ a @ (op1 @ b @ op2 @ c)) (length ([] :: string)) [] =
        tokenize_loop ([] @ a @ (op1 @ b @ op2 @ c)) (length ([] :: string) + length a)
          ([] @ [mk_token NUMBER a (length ([] :: string))])"
    by (rule tokenize_literal_step [OF assms(1)]) (use s1 in simp)
  then have 1: "tokenize_loop ?e 0 [] = tokenize_loop ?e (length a) [mk_token NUMBER a 0]"
    by simp
  have "tokenize_loop (a @ op1 @ (b @ op2 @ c)) (length a) [mk_token NUMBER a 0] =
        tokenize_loop (a @ op1 @ (b @ op2 @ c)) (length a + length op1)
          ([mk_token NUMBER a 0] @ [mk_token OPERATOR op1 (length a)])"
    by (rule tokenize_operator_step [OF assms(4)]) (use sb in simp)
  then have 2: "tokenize_loop ?e (length a) [mk_token NUMBER a 0] =
      tokenize_loop ?e (length a + length op1)
        [mk_token NUMBER a 0, mk_token OPERATOR op1 (length a)]"
    by simp
  have "tokenize_loop ((a @ op1) @ b @ (op2 @ c)) (length (a @ op1))
          [mk_token NUMBER a 0, mk_token OPERATOR op1 (length a)] =
        tokenize_loop ((a @ op1) @ b @ (op2 @ c)) (length (a @ op1) + length b)
          ([mk_token NUMBER a 0, mk_token OPERATOR op1 (length a)]
             @ [mk_token NUMBER b (length (a @ op1))])"
    by (rule tokenize_literal_step [OF assms(2)]) (use s2 in simp)
  then have 3: "tokenize_loop ?e (length a + length op1)
        [mk_token NUMBER a 0, mk_token OPERATOR op1 (length a)] =
      tokenize_loop ?e (length a + length op1 + length b)
        [mk_token NUMBER a 0, mk_token OPERATOR op1 (length a),
         mk_token NUMBER b (length a + length op1)]"
    by simp
  have "tokenize_loop ((a @ op1 @ b) @ op2 @ c) (length (a @ op1 @ b))
          [mk_token NUMBER a 0, mk_token OPERATOR op1 (length a),
           mk_token NUMBER b (length a + length op1)] =
        tokenize_loop ((a @ op1 @ b) @ op2 @ c) (length (a @ op1 @ b) + length op2)
          ([mk_token NUMBER a 0, mk_token OPERATOR op1 (length a),
            mk_token NUMBER b (length a + length op1)]
             @ [mk_token OPERATOR op2 (length (a @ op1 @ b))])"
    by (rule tokenize_operator_step [OF assms(5)]) (use sc in simp)
  then have 4: "tokenize_loop ?e (length a + length op1 + length b)
        [mk_token NUMBER a 0, mk_token OPERATOR op1 (length a),
         mk_token NUMBER b (length a + length op1)] =
      tokenize_loop ?e (length a + length op1 + length b + length op2)
        [mk_token NUMBER a 0, mk_token OPERATOR op1 (length a),
         mk_token NUMBER b (length a + length op1),
         mk_token OPERATOR op2 (length a + length op1 + length b)]"
    by (simp add: add.assoc)
  have "tokenize_loop ((a @ op1 @ b @ op2) @ c @ []) (length (a @ op1 @ b @ op2))
          [mk_token NUMBER a 0, mk_token OPERATOR op1 (length a),
           mk_token NUMBER b (length a + length op1),
           mk_token OPERATOR op2 (length a + length op1 + length b)] =
        tokenize_loop ((a @ op1 @ b @ op2) @ c @ []) (length (a @ op1 @ b @ op2) + length c)
          ([mk_token NUMBER a 0, mk_token OPERATOR op1 (length a),
            mk_token NUMBER b (length a + length op1),
            mk_token OPERATOR op2 (length a + length op1 + length b)]
             @ [mk_token NUMBER c (length (a @ op1 @ b @ op2))])"
    by (rule tokenize_literal_step [OF assms(3)]) simp
  then have 5: "tokenize_loop ?e (length a + length op1 + length b + length op2)
        [mk_token NUMBER a 0, mk_token OPERATOR op1 (length a),
         mk_token NUMBER b (length a + length op1),
         mk_token OPERATOR op2 (length a + length op1 + length b)] =
      tokenize_loop ?e (length a + length op1 + length b + length op2 + length c)
        [mk_token NUMBER a 0, mk_token OPERATOR op1 (length a),
         mk_token NUMBER b (length a + length op1),
         mk_token OPERATOR op2 (length a + length op1 + length b),
         mk_token NUMBER c (length a + length op1 + length b + length op2)]"
    by (simp add: add.assoc)
  have 6: "tokenize_loop ?e (length a + length op1 + length b + length op2 + length c) tokens =
           tokens @ [mk_token EOF [] (length a + length op1 + length b + length op2 + length c)]"
    for tokens
    by (rule tokenize_loop_end) simp
  show ?thesis
    by (simp only: 1 2 3 4 5 6) simp
qed

lemma tokenize_parenthesised:
  assumes "numeric_literal a" "numeric_literal b" "numeric_literal c"
    and "parser_operators op1 = Some (prec1, assoc1)"
    and "parser_operators op2 = Some (prec2, assoc2)"
  shows "tokenize_loop (a @ op1 @ ''('' @ b @ op2 @ c @ '')'') 0 [] =
    [mk_token NUMBER a 0,
     mk_token OPERATOR op1 (length a),
     mk_token LEFT_PAREN ''('' (length a + length op1),
     mk_token NUMBER b (length a + length op1 + 1),
     mk_token OPERATOR op2 (length a + length op1 + 1 + length b),
     mk_token NUMBER c (length a + length op1 + 1 + length b + length op2),
     mk_token RIGHT_PAREN '')'' (length a + length op1 + 1 + length b + length op2 + length c),
     mk_token EOF [] (length a + length op1 + 1 + length b + length op2 + length c + 1)]"
proof -
  let ?e = "a @ op1 @ ''('' @ b @ op2 @ c @ '')''"
  note sb = numeric_literal_start [OF assms(2)]
  note sc = numeric_literal_start [OF assms(3)]
  note s1 = operator_start [OF assms(4)]
  note s2 = operator_start [OF assms(5)]
  have "tokenize_loop ([] @ a @ (op1 @ ''('' @ b @ op2 @ c @ '')'')) (length ([] :: string)) [] =
        tokenize_loop ([] @ a @ (op1 @ ''('' @ b @ op2 @ c @ '')''))
          (length ([] :: string) + length a)
          ([] @ [mk_token NUMBER a (length ([] :: string))])"
    by (rule tokenize_literal_step [OF assms(1)]) (use s1 in simp)
  then have 1: "tokenize_loop ?e 0 [] = tokenize_loop ?e (length a) [mk_token NUMBER a 0]"
    by simp
  have "tokenize_loop (a @ op1 @ (''('' @ b @ op2 @ c @ '')'')) (length a) tokens =
        tokenize_loop (a @ op1 @ (''('' @ b @ op2 @ c @ '')'')) (length a + length op1)
          (tokens @ [mk_token OPERATOR op1 (length a)])" for tokens
    by (rule tokenize_operator_step [OF assms(4)]) simp
  then have 2: "tokenize_loop ?e (length a) tokens =
      tokenize_loop ?e (length a + length op1) (tokens @ [mk_token OPERATOR op1 (length a)])"
    for tokens
    by simp
  have "tokenize_loop ((a @ op1) @ ''('' @ (b @ op2 @ c @ '')'')) (length (a @ op1)) tokens =
        tokenize_loop ((a @ op1) @ ''('' @ (b @ op2 @ c @ '')'')) (length (a @ op1) + 1)
          (tokens @ [mk_token LEFT_PAREN ''('' (length (a @ op1))])" for tokens
    by (rule tokenize_left_paren_step)
  then have 3: "tokenize_loop ?e (length a + length op1) tokens =
      tokenize_loop ?e (length a + length op1 + 1)
        (tokens @ [mk_token LEFT_PAREN ''('' (length a + length op1)])" for tokens
    by simp
  have "tokenize_loop ((a @ op1 @ ''('') @ b @ (op2 @ c @ '')'')) (length (a @ op1 @ ''(''))
          tokens =
        tokenize_loop ((a @ op1 @ ''('') @ b @ (op2 @ c @ '')''))
          (length (a @ op1 @ ''('') + length b)
          (tokens @ [mk_token NUMBER b (length (a @ op1 @ ''(''))])" for tokens
    by (rule tokenize_literal_step [OF assms(2)]) (use s2 in simp)
  then have 4: "tokenize_loop ?e (length a + length op1 + 1) tokens =
      tokenize_loop ?e (length a + length op1 + 1 + length b)
        (tokens @ [mk_token NUMBER b (length a + length op1 + 1)])" for tokens
    by (simp add: add.assoc)
  have "tokenize_loop ((a @ op1 @ ''('' @ b) @ op2 @ (c @ '')'')) (length (a @ op1 @ ''('' @ b))
          tokens =
        tokenize_loop ((a @ op1 @ ''('' @ b) @ op2 @ (c @ '')''))
          (length (a @ op1 @ ''('' @ b) + length op2)
          (tokens @ [mk_token OPERATOR op2 (length (a @ op1 @ ''('' @ b))])" for tokens
    by (rule tokenize_operator_step [OF assms(5)]) (use sc in simp)
  then have 5: "tokenize_loop ?e (length a + length op1 + 1 + length b) tokens =
      tokenize_loop ?e (length a + length op1 + 1 + length b + length op2)
        (tokens @ [mk_token OPERATOR op2 (length a + length op1 + 1 + length b)])" for tokens
    by (simp add: add.assoc)
  have "tokenize_loop ((a @ op1 @ ''('' @ b @ op2) @ c @ '')'')
          (length (a @ op1 @ ''('' @ b @ op2)) tokens =
        tokenize_loop ((a @ op1 @ ''('' @ b @ op2) @ c @ '')'')
          (length (a @ op1 @ ''('' @ b @ op2) + length c)
          (tokens @ [mk_token NUMBER c (length (a @ op1 @ ''('' @ b @ op2))])" for tokens
    by (rule tokenize_literal_step [OF assms(3)]) (simp add: delimiter_def isdigit_def lower_def)
  then have 6: "tokenize_loop ?e (length a + length op1 + 1 + length b + length op2) tokens =
      tokenize_loop ?e (length a + length op1 + 1 + length b + length op2 + length c)
        (tokens @ [mk_token NUMBER c (length a + length op1 + 1 + length b + length op2)])"
    for tokens
    by (simp add: add.assoc)
  have "tokenize_loop ((a @ op1 @ ''('' @ b @ op2 @ c) @ '')'' @ [])
          (length (a @ op1 @ ''('' @ b @ op2 @ c)) tokens =
        tokenize_loop ((a @ op1 @ ''('' @ b @ op2 @ c) @ '')'' @ [])
          (length (a @ op1 @ ''('' @ b @ op2 @ c) + 1)
          (tokens @ [mk_token RIGHT_PAREN '')'' (length (a @ op1 @ ''('' @ b @ op2 @ c))])"
    for tokens
    by (rule tokenize_right_paren_step)
  then have 7: "tokenize_loop ?e (length a + length op1 + 1 + length b + length op2 + length c)
        tokens =
      tokenize_loop ?e (length a + length op1 + 1 + length b + length op2 + length c + 1)
        (tokens @ [mk_token RIGHT_PAREN '')''
           (length a + length op1 + 1 + length b + length op2 + length c)])"
    for tokens
    by (simp add: add.assoc)
  have 8: "tokenize_loop ?e (length a + length op1 + 1 + length b + length op2 + length c + 1)
             tokens =
           tokens @ [mk_token EOF []
             (length a + length op1 + 1 + length b + length op2 + length c + 1)]"
    for tokens
    by (rule tokenize_loop_end) simp
  show ?thesis
    by (simp only: 1 2 3 4 5 6 7 8) simp
qed

section \<open>The evaluator and the positions of the tokens\<close>

lemma evaluate_expression_tokens:
  "evaluate_expression expression variables = evaluate_tokens (tokenize expression) variables"
  by (simp add: evaluate_expression_def parse_expression_def evaluate_tokens_def Let_def
      split: option.splits)

lemma not_higher_precedence:
  assumes "parser_operators op1 = Some (prec1, assoc1)"
    and "parser_operators op2 = Some (prec2, assoc2)"
    and "prec1 < prec2"
  shows "\<not> has_higher_precedence (mk_token OPERATOR op1 p1) (mk_token OPERATOR op2 p2)"
  using assms by (simp add: has_higher_precedence_def mk_token_def)

lemma postfix_plain:
  assumes "\<not> has_higher_precedence (mk_token OPERATOR op1 p1) (mk_token OPERATOR op2 p2)"
  shows "parse_to_postfix
     [mk_token NUMBER a pa, mk_token OPERATOR op1 p1, mk_token NUMBER b pb,
      mk_token OPERATOR op2 p2, mk_token NUMBER c pc, mk_token EOF '''' pe]
   = [mk_token NUMBER a pa, mk_token NUMBER b pb, mk_token NUMBER c pc,
      mk_token OPERATOR op2 p2, mk_token OPERATOR op1 p1]"
  using assms by (simp add: parse_to_postfix_def mk_token_def)

lemma postfix_parenthesised:
  "parse_to_postfix
     [mk_token NUMBER a pa, mk_token OPERATOR op1 p1, mk_token LEFT_PAREN ''('' pl,
      mk_token NUMBER b pb, mk_token OPERATOR op2 p2, mk_token NUMBER c pc,
      mk_token RIGHT_PAREN '')'' pr, mk_token EOF '''' pe]
   = [mk_token NUMBER a pa, mk_token NUMBER b pb, mk_token NUMBER c pc,
      mk_token OPERATOR op2 p2, mk_token OPERATOR op1 p1]"
  by (simp add: parse_to_postfix_def mk_token_def)

lemma validate_plain:
  "validate_syntax
     [mk_token NUMBER a pa, mk_token OPERATOR op1 p1, mk_token NUMBER b pb,
      mk_token OPERATOR op2 p2, mk_token NUMBER c pc, mk_token EOF '''' pe] = None"
  by (simp add: validate_syntax_def mk_token_def)

lemma validate_parenthesised:
  "validate_syntax
     [mk_token NUMBER a pa, mk_token OPERATOR op1 p1, mk_token LEFT_PAREN ''('' pl,
      mk_token NUMBER b pb, mk_token OPERATOR op2 p2, mk_token NUMBER c pc,
      mk_token RIGHT_PAREN '')'' pr, mk_token EOF '''' pe] = None"
  by (simp add: validate_syntax_def mk_token_def)

lemma evaluate_loop_positions:
  assumes "list_all2 (\<lambda>t u. tok_type t = tok_type u \<and> tok_value t = tok_value u) ts us"
  shows "evaluate_loop ts variables stack = evaluate_loop us variables stack"
  using assms
proof (induction ts us arbitrary: stack rule: list_all2_induct)
  case Nil
  show ?case by simp
next
  case (Cons t ts u us)
  then have same: "tok_type t = tok_type u" "tok_value t = tok_value u"
    and IH: "\<And>stack. evaluate_loop ts variables stack = evaluate_loop us variables stack"
    by simp_all
  show ?case
    by (cases "tok_type u")
       (auto simp: same IH split: option.splits list.splits)
qed

lemma evaluate_postfix_positions:
  "evaluate_postfix
     [mk_token NUMBER a pa, mk_token NUMBER b pb, mk_token NUMBER c pc,
      mk_token OPERATOR op2 p2, mk_token OPERATOR op1 p1] variables
   = evaluate_postfix
     [mk_token NUMBER a qa, mk_token NUMBER b qb, mk_token NUMBER c qc,
      mk_token OPERATOR op2 q2, mk_token OPERATOR op1 q1] variables"
  unfolding evaluate_postfix_def
  by (subst evaluate_loop_positions [where us = "[mk_token NUMBER a qa, mk_token NUMBER b qb,
        mk_token NUMBER c qc, mk_token OPERATOR op2 q2, mk_token OPERATOR op1 q1]"])
     (simp_all add: mk_token_def)

lemma precedence_law_tokens:
  assumes "parser_operators op1 = Some (prec1, assoc1)"
    and "parser_operators op2 = Some (prec2, assoc2)"
    and "prec1 < prec2"
  shows "evaluate_tokens
     [mk_token NUMBER a pa, mk_token OPERATOR op1 p1, mk_token NUMBER b pb,
      mk_token OPERATOR op2 p2, mk_token NUMBER c pc, mk_token EOF '''' pe] variables
   = evaluate_tokens
     [mk_token NUMBER a qa, mk_token OPERATOR op1 q1, mk_token LEFT_PAREN ''('' ql,
      mk_token NUMBER b qb, mk_token OPERATOR op2 q2, mk_token NUMBER c qc,
      mk_token RIGHT_PAREN '')'' qr, mk_token EOF '''' qe] variables"
  unfolding evaluate_tokens_def validate_plain validate_parenthesised
    postfix_plain [OF not_higher_precedence [OF assms]] postfix_parenthesised
  by (simp add: evaluate_postfix_positions)

section \<open>Evaluating the definitions on concrete expressions\<close>

lemmas char_class_defs = isdigit_def isalpha_def isalnum_def lower_def

lemmas tokenize_defs = tokenize_def tokenize_loop.simps parse_number_def parse_identifier_def
  scan_while.simps parse_number_loop.simps slice_def mk_token_def parser_functions_def
  parser_constants_def Let_def

lemmas py_float_defs = py_float_def strip_def isspace_def ascii_digit_def parse_sign_def
  parse_decimal_def decimal_value_def pow10_def Let_def

lemmas float_op_defs = binary_op_def is_complex_def as_double_def then_do_def float_pow_def
  float_div_def isnan_def isinf_def isfinite_def c_pow_def Let_def

lemma py_float_0: "py_float ''0'' = Inr (Fin 0)"
  by (simp add: py_float_defs to_double_def)

lemma py_float_1: "py_float ''1'' = Inr (Fin 1)"
  by (simp add: py_float_defs to_double_one)

lemma py_float_2: "py_float ''2'' = Inr (Fin 2)"
  by (simp add: py_float_defs to_double_numeral)

lemma py_float_3: "py_float ''3'' = Inr (Fin 3)"
  by (simp add: py_float_defs to_double_numeral)

lemma parse_sqrt_minus_1:
  "parse_expression ''sqrt(-1)'' =
     Inr (tokenize ''sqrt(-1)'',
          [mk_token NUMBER ''1'' 6, mk_token OPERATOR ''-'' 5, mk_token FUNCTION ''sqrt'' 0])"
  by code_simp

lemma parse_2_pow_3_pow_2:
  "parse_expression ''2^3^2'' =
     Inr (tokenize ''2^3^2'',
          [mk_token NUMBER ''2'' 0, mk_token NUMBER ''3'' 2, mk_token NUMBER ''2'' 4,
           mk_token OPERATOR ''^'' 3, mk_token OPERATOR ''^'' 1])"
  by code_simp

lemma pow_3_2: "py_pow (PyFloat (Fin 3)) (PyFloat (Fin 2)) = Inr (PyFloat (Fin 9))"
  by (simp add: py_pow_def float_op_defs to_double_numeral)

lemma pow_2_9: "py_pow (PyFloat (Fin 2)) (PyFloat (Fin 9)) = Inr (PyFloat (Fin 512))"
  by (simp add: py_pow_def float_op_defs to_double_numeral)

lemma parse_1_div_0:
  "parse_expression ''1/0'' =
     Inr (tokenize ''1/0'',
          [mk_token NUMBER ''1'' 0, mk_token NUMBER ''0'' 2, mk_token OPERATOR ''/'' 1])"
  by code_simp

lemma parse_sqrt_0_minus_1:
  "parse_expression ''sqrt(0-1)'' =
     Inr (tokenize ''sqrt(0-1)'',
          [mk_token NUMBER ''0'' 5, mk_token NUMBER ''1'' 7, mk_token OPERATOR ''-'' 6,
           mk_token FUNCTION ''sqrt'' 0])"
  by code_simp

lemma parse_neg8_pow_half:
  "parse_expression ''(0-8)^0.5'' =
     Inr (tokenize ''(0-8)^0.5'',
          [mk_token NUMBER ''0'' 1, mk_token NUMBER ''8'' 3, mk_token OPERATOR ''-'' 2,
           mk_token NUMBER ''0.5'' 6, mk_token OPERATOR ''^'' 5])"
  by code_simp

lemma to_double_half: "to_double (1 / 2) = Fin (1 / 2)"
  using to_double_exact [of "1 / 2" 1 "- 1"] by (simp add: powr_minus)

lemma to_double_minus_numeral:
  "(numeral k :: int) < 2 ^ 53 \<Longrightarrow> to_double (- numeral k) = Fin (- numeral k)"
  using to_double_of_int [of "- numeral k"] by simp

lemma to_double_minus_one: "to_double (- 1) = Fin (- 1)"
  using to_double_of_int [of "- 1"] by simp

lemma py_float_8: "py_float ''8'' = Inr (Fin 8)"
  by (simp add: py_float_defs to_double_numeral)

lemma py_float_half: "py_float ''0.5'' = Inr (Fin (1 / 2))"
  by (simp add: py_float_defs lower_def to_double_half)

lemma sub_0_1: "py_sub (PyFloat (Fin 0)) (PyFloat (Fin 1)) = Inr (PyFloat (Fin (- 1)))"
  by (simp add: py_sub_def float_op_defs fsub_def to_double_minus_one)

lemma sub_0_8: "py_sub (PyFloat (Fin 0)) (PyFloat (Fin 8)) = Inr (PyFloat (Fin (- 8)))"
  by (simp add: py_sub_def float_op_defs fsub_def to_double_minus_numeral)

lemma div_1_0: "py_truediv (PyFloat (Fin 1)) (PyFloat (Fin 0)) = Inl ZeroDivisionError"
  by (simp add: py_truediv_def float_op_defs)

lemma eval_1_div_0: "evaluate_expression ''1/0'' Map.empty = Inl ZeroDivisionError"
  by (simp add: evaluate_expression_def parse_1_div_0 evaluate_postfix_def mk_token_def
      py_float_0 py_float_1 then_do_def evaluator_operators_def div_1_0)

lemma is_neg: "flt (Fin (- 1)) (Fin 0)" by simp

lemma eval_sqrt_0_minus_1: "evaluate_expression ''sqrt(0-1)'' Map.empty = Inl MathDomainError"
  by (simp add: evaluate_expression_def parse_sqrt_0_minus_1 evaluate_postfix_def mk_token_def
      py_float_0 py_float_1 then_do_def evaluator_operators_def sub_0_1 ef_sqrt
      unary_functions_def sqrt_outside)

lemma to_double_Fin:
  assumes "\<bar>x\<bar> \<le> B" and "B \<le> 2 ^ 1000"
  obtains r where "to_double x = Fin r" and "\<bar>r\<bar> \<le> 2 * B + 1"
proof -
  from assms have "\<bar>x\<bar> \<le> 2 ^ 1000" by linarith
  from to_double_bound [OF this] obtain r where "to_double x = Fin r" "\<bar>r\<bar> \<le> 2 * \<bar>x\<bar> + 1"
    by blast
  with assms(1) that [of r] show thesis by linarith
qed

lemma atan2_neg8: "c_atan2 (Fin 0) (Fin (- 8)) = to_double pi"
  by (simp add: c_atan2_def)

lemma py_c_pow_neg8_half:
  "\<exists>re im. Py_c_pow (Fin (- 8), Fin 0) (Fin (1 / 2), Fin 0) = Some (Fin re, Fin im)"
proof -
  have "\<bar>8 powr (1 / 2 :: real)\<bar> \<le> 8"
    using powr_mono [of "1 / 2" 1 "8::real"] by simp
  then obtain l where l: "to_double (8 powr (1 / 2)) = Fin l" "\<bar>l\<bar> \<le> 2 * 8 + 1"
    by (rule to_double_Fin) simp
  have "\<bar>pi\<bar> \<le> 4" using pi_less_4 pi_gt_zero by simp
  then obtain p where p: "to_double pi = Fin p" "\<bar>p\<bar> \<le> 2 * 4 + 1"
    by (rule to_double_Fin) simp
  have "\<bar>p / 2\<bar> \<le> 9" using p(2) by simp
  then obtain q where q: "to_double (p / 2) = Fin q" "\<bar>q\<bar> \<le> 2 * 9 + 1"
    by (rule to_double_Fin) simp
  have "\<bar>cos q\<bar> \<le> 1" by (rule abs_cos_le_one)
  then obtain c where c: "to_double (cos q) = Fin c" "\<bar>c\<bar> \<le> 2 * 1 + 1"
    by (rule to_double_Fin) simp
  have "\<bar>sin q\<bar> \<le> 1" by (rule abs_sin_le_one)
  then obtain s where s: "to_double (sin q) = Fin s" "\<bar>s\<bar> \<le> 2 * 1 + 1"
    by (rule to_double_Fin) simp
  have "\<bar>l * c\<bar> \<le> 17 * 3"
    unfolding abs_mult using l(2) c(2) by (intro mult_mono) auto
  then obtain re where re: "to_double (l * c) = Fin re" "\<bar>re\<bar> \<le> 2 * (17 * 3) + 1"
    by (rule to_double_Fin) simp
  have "\<bar>l * s\<bar> \<le> 17 * 3"
    unfolding abs_mult using l(2) s(2) by (intro mult_mono) auto
  then obtain im where im: "to_double (l * s) = Fin im" "\<bar>im\<bar> \<le> 2 * (17 * 3) + 1"
    by (rule to_double_Fin) simp
  have len0: "c_pow (Fin 8) (Fin (1 / 2)) = Fin l"
    by (simp add: c_pow_def l(1))
  have "Py_c_pow (Fin (- 8), Fin 0) (Fin (1 / 2), Fin 0) = Some (Fin re, Fin im)"
    by (simp add: Py_c_pow_def Let_def isinf_def to_double_numeral atan2_neg8 len0 p(1) q(1) c(1) s(1) re(1) im(1))
  then show ?thesis by blast
qed

lemma float_pow_neg8_half:
  "\<exists>re im. py_pow (PyFloat (Fin (- 8))) (PyFloat (Fin (1 / 2))) = Inr (PyComplex (Fin re) (Fin im))"
proof -
  have ni: "\<not> is_integer (1 / 2)"
    by (simp add: is_integer_def)
  from py_c_pow_neg8_half obtain re im where
    "Py_c_pow (Fin (- 8), Fin 0) (Fin (1 / 2), Fin 0) = Some (Fin re, Fin im)" by blast
  then have "complex_pow (Fin (- 8), Fin 0) (Fin (1 / 2), Fin 0) = Inr (PyComplex (Fin re) (Fin im))"
    using ni by (simp add: complex_pow_def isinf_def)
  then show ?thesis
    using float_pow_negative_fractional [of "- 8" "1 / 2"] ni
    by (simp add: py_pow_floats)
qed

lemma eval_loop_neg8_half:
  "evaluate_loop
     [mk_token NUMBER ''0'' 1, mk_token NUMBER ''8'' 3, mk_token OPERATOR ''-'' 2,
      mk_token NUMBER ''0.5'' 6] Map.empty []
   = Inr [PyFloat (Fin (1 / 2)), PyFloat (Fin (- 8))]"
  by (simp add: mk_token_def py_float_0 py_float_8 py_float_half then_do_def
      evaluator_operators_def sub_0_8)

lemma eval_neg8_pow_half:
  "case evaluate_expression ''(0-8)^0.5'' Map.empty of Inl e \<Rightarrow> False | Inr v \<Rightarrow> is_complex v"
proof -
  from float_pow_neg8_half obtain re im where
    "py_pow (PyFloat (Fin (- 8))) (PyFloat (Fin (1 / 2))) = Inr (PyComplex (Fin re) (Fin im))"
    by blast
  then show ?thesis
    by (simp add: evaluate_expression_def parse_neg8_pow_half evaluate_postfix_def mk_token_def
      py_float_0 py_float_8 py_float_half then_do_def evaluator_operators_def sub_0_8
      is_complex_def)
qed

lemma postfix_neg8_pow_half:
  "\<exists>re im. evaluate_postfix
     ([mk_token NUMBER ''0'' 1, mk_token NUMBER ''8'' 3, mk_token OPERATOR ''-'' 2,
       mk_token NUMBER ''0.5'' 6] @ [mk_token OPERATOR ''^'' 5]) Map.empty
     = Inr (PyComplex (Fin re) (Fin im))"
proof -
  from float_pow_neg8_half obtain re im where
    "py_pow (PyFloat (Fin (- 8))) (PyFloat (Fin (1 / 2))) = Inr (PyComplex (Fin re) (Fin im))"
    by blast
  then have "evaluate_postfix
     ([mk_token NUMBER ''0'' 1, mk_token NUMBER ''8'' 3, mk_token OPERATOR ''-'' 2,
       mk_token NUMBER ''0.5'' 6] @ [mk_token OPERATOR ''^'' 5]) Map.empty
     = Inr (PyComplex (Fin re) (Fin im))"
    by (simp add: evaluate_postfix_def mk_token_def py_float_0 py_float_8 py_float_half
        then_do_def evaluator_operators_def sub_0_8)
  then show ?thesis by blast
qed

lemma parse_floor_2:
  "parse_expression ''floor(2)'' =
     Inr (tokenize ''floor(2)'', [mk_token NUMBER ''2'' 6, mk_token FUNCTION ''floor'' 0])"
  by code_simp

lemma ef_floor: "evaluator_functions ''floor'' = Some math_floor"
  by (simp add: evaluator_functions_def)

lemma eval_floor_2: "evaluate_expression ''floor(2)'' Map.empty = Inr (PyInt 2)"
  by (simp add: evaluate_expression_def parse_floor_2 evaluate_postfix_def mk_token_def
      py_float_2 then_do_def ef_floor unary_functions_def math_floor_def double_to_int_def)


section \<open>The claims\<close>

text \<open>
  C1, as the code has it. Python's \<^verbatim>\<open>/\<close> raises ZeroDivisionError when its right operand is
  zero, whatever the left operand is (a float, an int or a complex number; an infinity or a
  NaN too), and \<^verbatim>\<open>evaluate_postfix\<close> does not catch it. So whenever the evaluator applies
  \<^verbatim>\<open>/\<close> to a right operand equal to zero, the evaluation fails with ZeroDivisionError and
  returns no value; only when the left operand is an int too large for a double and the
  zero is a float or a complex number, the conversion of the int fails first, with
  OverflowError.
\<close>

theorem C1_division_by_zero_raises:
  assumes "evaluate_loop pre variables [] = Inr (b # a # rest)"
    and "is_zero b"
  shows "evaluate_postfix (pre @ mk_token OPERATOR ''/'' p # post) variables = Inl ZeroDivisionError
       \<or> (evaluate_postfix (pre @ mk_token OPERATOR ''/'' p # post) variables = Inl OverflowError
          \<and> (\<exists>n. a = PyInt n))"
  using truediv_by_zero [OF assms(2), of a] assms(1)
  by (auto simp: evaluate_postfix_def evaluate_loop_append then_do_def mk_token_def
      evaluator_operators_def)

theorem C1_division_by_zero_witness:
  "evaluate_loop [mk_token NUMBER ''1'' 0, mk_token NUMBER ''0'' 2] Map.empty []
     = Inr [PyFloat (Fin 0), PyFloat (Fin 1)] \<and>
   is_zero (PyFloat (Fin 0)) \<and>
   evaluate_postfix
     ([mk_token NUMBER ''1'' 0, mk_token NUMBER ''0'' 2] @ mk_token OPERATOR ''/'' 1 # [])
     Map.empty = Inl ZeroDivisionError"
proof -
  have h1: "evaluate_loop [mk_token NUMBER ''1'' 0, mk_token NUMBER ''0'' 2] Map.empty []
              = Inr (PyFloat (Fin 0) # PyFloat (Fin 1) # [])"
    by (simp add: mk_token_def py_float_0 py_float_1 then_do_def)
  have h2: "is_zero (PyFloat (Fin 0))"
    by (simp add: is_zero_def)
  from C1_division_by_zero_raises [OF h1 h2, of 1 "[]"]
  have "evaluate_postfix
          ([mk_token NUMBER ''1'' 0, mk_token NUMBER ''0'' 2] @ mk_token OPERATOR ''/'' 1 # [])
          Map.empty = Inl ZeroDivisionError"
    by auto
  with h1 h2 show ?thesis by simp
qed

text \<open>
  C1, as the specification states it, fails: the validated expression \<^verbatim>\<open>1/0\<close> applies
  \<^verbatim>\<open>/\<close> to the right operand 0.0, and its evaluation is the failure ZeroDivisionError, not
  an infinity or a NaN.
\<close>

theorem C1_counterexample:
  "evaluate_expression ''1/0'' Map.empty = Inl ZeroDivisionError"
  by (rule eval_1_div_0)

text \<open>
  C2, as the code has it. The functions of Python's math module raise ValueError ("math
  domain error") for a float argument outside the domain: \<^verbatim>\<open>sqrt\<close> of a negative float,
  \<^verbatim>\<open>ln\<close> and \<^verbatim>\<open>log\<close> of a float that is not positive, \<^verbatim>\<open>asin\<close> and \<^verbatim>\<open>acos\<close> of a float of
  absolute value above one. So whenever the evaluator applies one of these functions to
  such an argument, the evaluation fails with that ValueError and returns no value.
\<close>

theorem C2_domain_error_raises:
  assumes "evaluate_loop pre variables [] = Inr (PyFloat x # rest)"
    and "outside_domain name x"
  shows "evaluate_postfix (pre @ mk_token FUNCTION name p # post) variables = Inl MathDomainError"
proof -
  from function_outside_domain [OF assms(2)] obtain func where
    f: "evaluator_functions name = Some func" "name \<in> set unary_functions"
       "func (PyFloat x) = Inl MathDomainError" by blast
  show ?thesis
    using assms(1) f
    by (simp add: evaluate_postfix_def evaluate_loop_append then_do_def mk_token_def)
qed

theorem C2_domain_error_witness:
  "evaluate_loop
     [mk_token NUMBER ''0'' 5, mk_token NUMBER ''1'' 7, mk_token OPERATOR ''-'' 6] Map.empty []
     = Inr [PyFloat (Fin (- 1))] \<and>
   outside_domain ''sqrt'' (Fin (- 1)) \<and>
   evaluate_postfix
     ([mk_token NUMBER ''0'' 5, mk_token NUMBER ''1'' 7, mk_token OPERATOR ''-'' 6]
        @ mk_token FUNCTION ''sqrt'' 0 # [])
     Map.empty = Inl MathDomainError"
proof -
  have h1: "evaluate_loop
     [mk_token NUMBER ''0'' 5, mk_token NUMBER ''1'' 7, mk_token OPERATOR ''-'' 6] Map.empty []
     = Inr (PyFloat (Fin (- 1)) # [])"
    by (simp add: mk_token_def py_float_0 py_float_1 then_do_def evaluator_operators_def sub_0_1)
  have h2: "outside_domain ''sqrt'' (Fin (- 1))"
    by (simp add: outside_domain_def)
  from C2_domain_error_raises [OF h1 h2, of 0 "[]"] h1 h2 show ?thesis by simp
qed

text \<open>
  C2, as the specification states it, fails: in \<^verbatim>\<open>sqrt(0-1)\<close> the function \<^verbatim>\<open>sqrt\<close>
  receives the negative argument -1.0, and the evaluation is the failure ValueError
  ("math domain error"), not a NaN.
\<close>

theorem C2_counterexample:
  "evaluate_expression ''sqrt(0-1)'' Map.empty = Inl MathDomainError"
  by (rule eval_sqrt_0_minus_1)

text \<open>
  C3, as the code has it. The tokenizer has no unary minus: in \<^verbatim>\<open>sqrt(-1)\<close> the \<^verbatim>\<open>-\<close> is a
  binary OPERATOR token, the validator accepts the tokens (an operator after a left
  parenthesis breaks none of its rules), the postfix sequence is \<^verbatim>\<open>1 - sqrt\<close>, and the
  evaluator finds one value on the stack at \<^verbatim>\<open>-\<close>. So evaluating \<^verbatim>\<open>sqrt(-1)\<close> with no
  variable bindings fails with the ValueError "Insufficient operands for operator -";
  \<^verbatim>\<open>math.sqrt\<close> is never called.
\<close>

theorem C3_sqrt_minus_1_insufficient_operands:
  "evaluate_expression ''sqrt(-1)'' Map.empty = Inl (InsufficientOperands ''-'')"
  by (simp add: evaluate_expression_def parse_sqrt_minus_1 evaluate_postfix_def mk_token_def
      py_float_1 then_do_def)

text \<open>
  C3, as the specification states it, fails: the evaluation of \<^verbatim>\<open>sqrt(-1)\<close> is a
  failure and not the value NaN.
\<close>

theorem C3_counterexample:
  "isl (evaluate_expression ''sqrt(-1)'' Map.empty) \<and>
   evaluate_expression ''sqrt(-1)'' Map.empty \<noteq> Inr (PyFloat NaN)"
  by (simp add: evaluate_expression_def parse_sqrt_minus_1 evaluate_postfix_def mk_token_def
      py_float_1 then_do_def)

text \<open>
  C4, as the code has it. The value of a successful evaluation is a Python number: a
  float, an int (which \<^verbatim>\<open>floor\<close>, \<^verbatim>\<open>ceil\<close> and \<^verbatim>\<open>round\<close> return) or a complex number, as the
  annotation \<^verbatim>\<open>Union[float, int, complex]\<close> of \<^verbatim>\<open>evaluate_postfix\<close> says. In particular
  \<^verbatim>\<open>^\<close> or \<^verbatim>\<open>**\<close> applied to a negative finite float and a finite float exponent that is no
  integer yields, whenever it yields a value, a complex number and never a float.
\<close>

theorem C4_negative_base_fractional_exponent_complex:
  assumes "evaluate_loop pre variables [] = Inr [PyFloat (Fin y), PyFloat (Fin x)]"
    and "x < 0" and "\<not> is_integer y"
    and "operator = ''^'' \<or> operator = ''**''"
    and "evaluate_postfix (pre @ [mk_token OPERATOR operator p]) variables = Inr v"
  shows "is_complex v"
proof -
  have op: "evaluator_operators operator = Some py_pow"
    using assms(4) by (auto simp: evaluator_operators_def)
  have "evaluate_postfix (pre @ [mk_token OPERATOR operator p]) variables =
        then_do (py_pow (PyFloat (Fin x)) (PyFloat (Fin y))) (\<lambda>result. Inr result)"
    using assms(1) op
    by (simp add: evaluate_postfix_def evaluate_loop_append then_do_def mk_token_def
        split: sum.splits)
  with assms(5) have "complex_pow (Fin x, Fin 0) (Fin y, Fin 0) = Inr v"
    by (simp add: py_pow_floats float_pow_negative_fractional [OF assms(2,3)] then_do_def
        split: sum.splits)
  then show ?thesis by (rule complex_pow_is_complex)
qed

theorem C4_negative_base_fractional_exponent_witness:
  "evaluate_loop
     [mk_token NUMBER ''0'' 1, mk_token NUMBER ''8'' 3, mk_token OPERATOR ''-'' 2,
      mk_token NUMBER ''0.5'' 6] Map.empty []
     = Inr [PyFloat (Fin (1 / 2)), PyFloat (Fin (- 8))] \<and>
   (- 8 :: real) < 0 \<and> \<not> is_integer (1 / 2) \<and>
   (case evaluate_postfix
      ([mk_token NUMBER ''0'' 1, mk_token NUMBER ''8'' 3, mk_token OPERATOR ''-'' 2,
        mk_token NUMBER ''0.5'' 6] @ [mk_token OPERATOR ''^'' 5]) Map.empty
    of Inl e \<Rightarrow> False | Inr v \<Rightarrow> is_complex v)"
proof -
  have h2: "(- 8 :: real) < 0" by simp
  have h3: "\<not> is_integer (1 / 2)" by (simp add: is_integer_def)
  have h4: "''^'' = ''^'' \<or> ''^'' = ''**''" by simp
  from postfix_neg8_pow_half obtain v where
    h5: "evaluate_postfix
      ([mk_token NUMBER ''0'' 1, mk_token NUMBER ''8'' 3, mk_token OPERATOR ''-'' 2,
        mk_token NUMBER ''0.5'' 6] @ [mk_token OPERATOR ''^'' 5]) Map.empty = Inr v"
    by blast
  from C4_negative_base_fractional_exponent_complex [OF eval_loop_neg8_half h2 h3 h4 h5]
  have "is_complex v" .
  with h5 eval_loop_neg8_half h2 h3 show ?thesis by simp
qed

text \<open>
  C4, as the specification states it, fails twice: \<^verbatim>\<open>floor(2)\<close> evaluates to the int 2,
  which is no double, and \<^verbatim>\<open>(0-8)^0.5\<close>, a negative base with a fractional exponent,
  evaluates successfully to a complex number.
\<close>

theorem C4_counterexample:
  "evaluate_expression ''floor(2)'' Map.empty = Inr (PyInt 2) \<and>
   (case evaluate_expression ''(0-8)^0.5'' Map.empty of Inl e \<Rightarrow> False | Inr v \<Rightarrow> is_complex v)"
  using eval_floor_2 eval_neg8_pow_half by simp

text \<open>
  C5, as the code has it. The validator makes one pass over the tokens and reports the
  violation it meets first in the order of the tokens, not in the order of the rules: an
  empty expression first; otherwise the violation at the earliest token that has one
  (a closing parenthesis with no open one, an operator after an operator, a misplaced
  function); and only when no token has one, the unmatched parentheses left open at the
  end, and after that the operator at the end.
\<close>

theorem C5_first_violation_in_token_order:
  "validate_syntax tokens = validate_spec tokens"
proof (cases "before_eof tokens = []")
  case True
  then have "tokens = [] \<or> tok_type (hd tokens) = EOF"
    by (cases tokens) (auto simp: before_eof_Cons split: if_splits)
  with True show ?thesis by (simp add: validate_syntax_def validate_spec_def)
next
  case False
  then have ne: "\<not> (tokens = [] \<or> tok_type (hd tokens) = EOF)"
    by (cases tokens) (auto simp: before_eof_Cons before_eof_def)
  have d0: "paren_depth [] = 0" by (simp add: paren_depth_def count_type_def)
  have "validate_loop tokens 0 None =
        validate_loop (before_eof tokens) (paren_depth []) (last_token [])"
    using validate_loop_before_eof [of tokens 0 None] by (simp add: d0 last_token_def)
  also have "\<dots> = (case violation_from ([] @ before_eof tokens) (length ([] :: Token list)) of
        Some e \<Rightarrow> Inl e
      | None \<Rightarrow> Inr (paren_depth ([] @ before_eof tokens), last_token ([] @ before_eof tokens)))"
    by (rule validate_loop_violation) (rule before_eof_no_eof)
  finally have "validate_loop tokens 0 None =
      (case first_violation (before_eof tokens) of
        Some e \<Rightarrow> Inl e
      | None \<Rightarrow> Inr (paren_depth (before_eof tokens), Some (last (before_eof tokens))))"
    using False by (simp add: first_violation_def last_token_def split: option.splits)
  then show ?thesis
    using ne False
    by (simp add: validate_syntax_def validate_spec_def Let_def split: option.splits)
qed

text \<open>
  C5, as the specification states it, fails: the tokens of \<^verbatim>\<open>1++2)\<close> hold an unmatched
  closing parenthesis (the depth ends at -1) and, earlier, two consecutive operators, and
  the validator reports the consecutive operators at position 2.
\<close>

theorem C5_counterexample:
  "validate_syntax (tokenize ''1++2)'') = Some (ConsecutiveOperators 2) \<and>
   paren_depth (before_eof (tokenize ''1++2)'')) = - 1"
  by code_simp

text \<open>
  C6: the expression \<^verbatim>\<open>2^3^2\<close> evaluates to the float 512.0, which is \<open>2 ^ (3 ^ 2)\<close>, and not
  to 64.0, which is \<open>(2 ^ 3) ^ 2\<close>.
\<close>

theorem C6_power_right_associative:
  "evaluate_expression ''2^3^2'' Map.empty = Inr (PyFloat (Fin 512)) \<and>
   evaluate_expression ''2^3^2'' Map.empty \<noteq> Inr (PyFloat (Fin 64))"
  by (simp add: evaluate_expression_def parse_2_pow_3_pow_2 evaluate_postfix_def mk_token_def
      py_float_2 py_float_3 then_do_def evaluator_operators_def pow_3_2 pow_2_9)

text \<open>
  C7: for numeric literals \<open>a\<close>, \<open>b\<close>, \<open>c\<close> and operators \<open>op1\<close>, \<open>op2\<close> of the parser's table
  with the precedence of \<open>op2\<close> strictly greater than that of \<open>op1\<close>, an expression that
  reads \<^verbatim>\<open>a op1 b op2 c\<close> (with spaces anywhere) evaluates to the same result, value or
  failure, as one that reads \<^verbatim>\<open>a op1 (b op2 c)\<close>, under every variable binding.
\<close>

theorem C7_precedence_law:
  assumes "numeric_literal a" and "numeric_literal b" and "numeric_literal c"
    and "parser_operators op1 = Some (prec1, assoc1)"
    and "parser_operators op2 = Some (prec2, assoc2)"
    and "prec1 < prec2"
    and "filter (\<lambda>ch. ch \<noteq> CHR '' '') plain = a @ op1 @ b @ op2 @ c"
    and "filter (\<lambda>ch. ch \<noteq> CHR '' '') parenthesised = a @ op1 @ ''('' @ b @ op2 @ c @ '')''"
  shows "evaluate_expression plain variables = evaluate_expression parenthesised variables"
  unfolding evaluate_expression_tokens tokenize_def assms(7) assms(8)
    tokenize_plain [OF assms(1-5)] tokenize_parenthesised [OF assms(1-5)]
  by (rule precedence_law_tokens [OF assms(4-6)])

theorem C7_precedence_law_witness:
  "numeric_literal ''2'' \<and> numeric_literal ''3'' \<and> numeric_literal ''4'' \<and>
   parser_operators ''+'' = Some (1, left) \<and> parser_operators ''*'' = Some (2, left) \<and>
   (1 :: nat) < 2 \<and>
   filter (\<lambda>ch. ch \<noteq> CHR '' '') ''2 + 3 * 4'' = ''2'' @ ''+'' @ ''3'' @ ''*'' @ ''4'' \<and>
   filter (\<lambda>ch. ch \<noteq> CHR '' '') ''2 + (3 * 4)''
     = ''2'' @ ''+'' @ ''('' @ ''3'' @ ''*'' @ ''4'' @ '')'' \<and>
   evaluate_expression ''2 + 3 * 4'' Map.empty = evaluate_expression ''2 + (3 * 4)'' Map.empty"
proof -
  have l: "numeric_literal ''2''" "numeric_literal ''3''" "numeric_literal ''4''"
    by code_simp+
  have h1: "parser_operators ''+'' = Some (1, left)" by (simp add: parser_operators_def)
  have h2: "parser_operators ''*'' = Some (2, left)" by (simp add: parser_operators_def)
  have h3: "(1 :: nat) < 2" by simp
  have f1: "filter (\<lambda>ch. ch \<noteq> CHR '' '') ''2 + 3 * 4'' = ''2'' @ ''+'' @ ''3'' @ ''*'' @ ''4''"
    by simp
  have f2: "filter (\<lambda>ch. ch \<noteq> CHR '' '') ''2 + (3 * 4)''
              = ''2'' @ ''+'' @ ''('' @ ''3'' @ ''*'' @ ''4'' @ '')''"
    by simp
  note C7_precedence_law [OF l h1 h2 h3 f1 f2, of Map.empty]
  with l h1 h2 h3 f1 f2 show ?thesis by blast
qed

text \<open>
  C8: for every token sequence that the validator accepts, the postfix sequence holds
  exactly the value, operator and function tokens that stand before the EOF token, each as
  often as it stands there (an equation of multisets of tokens); so its length is
  \<open>m + k + f\<close> for \<open>m\<close> value tokens (NUMBER, VARIABLE, CONSTANT), \<open>k\<close> OPERATOR tokens and \<open>f\<close>
  FUNCTION tokens. Both the validator and the converter stop at the first EOF token, and
  for the tokenizer's output the tokens before it are all tokens but the last
  (\<open>before_eof_tokenize\<close>).
\<close>

theorem C8_postfix_length:
  assumes "validate_syntax tokens = None"
  shows "length (parse_to_postfix tokens) =
           (count_type NUMBER (before_eof tokens) + count_type VARIABLE (before_eof tokens)
              + count_type CONSTANT (before_eof tokens))
           + count_type OPERATOR (before_eof tokens) + count_type FUNCTION (before_eof tokens)
         \<and> mset (parse_to_postfix tokens) = mset (filter kept (before_eof tokens))"
proof -
  note m = parse_to_postfix_mset [OF assms]
  then have "size (mset (parse_to_postfix tokens)) = size (mset (filter kept (before_eof tokens)))"
    by (rule arg_cong)
  then have "length (parse_to_postfix tokens) = length (filter kept (before_eof tokens))"
    by (simp only: size_mset)
  with m show ?thesis by (simp add: length_filter_kept)
qed

theorem C8_postfix_length_witness:
  "validate_syntax (tokenize ''sin(1)+x'') = None \<and>
   length (parse_to_postfix (tokenize ''sin(1)+x'')) = (1 + 1 + 0) + 1 + 1"
proof -
  have h: "validate_syntax (tokenize ''sin(1)+x'') = None" by code_simp
  have c: "count_type NUMBER (before_eof (tokenize ''sin(1)+x'')) = 1"
    "count_type VARIABLE (before_eof (tokenize ''sin(1)+x'')) = 1"
    "count_type CONSTANT (before_eof (tokenize ''sin(1)+x'')) = 0"
    "count_type OPERATOR (before_eof (tokenize ''sin(1)+x'')) = 1"
    "count_type FUNCTION (before_eof (tokenize ''sin(1)+x'')) = 1"
    by code_simp+
  from C8_postfix_length [OF h] h show ?thesis by (simp add: c)
qed

text \<open>
  C9, as the code has it. The tokenizer removes every space before it scans, and the
  positions count in the expression without spaces, not in the string that the caller
  supplied. The tokens before the final EOF tile the expression without spaces, in the
  order of the list: the first stands at the first character that the tokenizer does not
  skip, each next one at the first such character at or after the end of the text of the
  one before, each has a text that is not empty and is read at its position, and only
  skipped characters follow the last. The final token is EOF, with the empty text, at the
  length of the expression without spaces.
\<close>

theorem C9_positions_in_cleaned_expression:
  "tokenize expression =
     butlast (tokenize expression)
       @ [mk_token EOF [] (length (filter (\<lambda>c. c \<noteq> CHR '' '') expression))] \<and>
   tiled (filter (\<lambda>c. c \<noteq> CHR '' '') expression) 0 (butlast (tokenize expression))"
proof -
  from tokenize_loop_tiled [of 0 "filter (\<lambda>c. c \<noteq> CHR '' '') expression" "[]"]
  obtain ts where
    ts: "tokenize expression
           = ts @ [mk_token EOF [] (length (filter (\<lambda>c. c \<noteq> CHR '' '') expression))]"
        "tiled (filter (\<lambda>c. c \<noteq> CHR '' '') expression) 0 ts"
    by (auto simp: tokenize_def)
  from ts(1) have "butlast (tokenize expression) = ts" by (simp add: butlast_append)
  with ts show ?thesis by simp
qed

theorem C9_positions_witness:
  "tokenize '' 1 + 2'' =
     [mk_token NUMBER ''1'' 0, mk_token OPERATOR ''+'' 1, mk_token NUMBER ''2'' 2]
       @ [mk_token EOF [] 3] \<and>
   tiled ''1+2'' 0
     [mk_token NUMBER ''1'' 0, mk_token OPERATOR ''+'' 1, mk_token NUMBER ''2'' 2]"
proof -
  have m: "butlast (tokenize '' 1 + 2'') =
             [mk_token NUMBER ''1'' 0, mk_token OPERATOR ''+'' 1, mk_token NUMBER ''2'' 2]"
    by code_simp
  have f: "filter (\<lambda>c. c \<noteq> CHR '' '') '' 1 + 2'' = ''1+2''" by simp
  have l: "length ''1+2'' = 3" by simp
  from C9_positions_in_cleaned_expression [of "'' 1 + 2''"] show ?thesis
    unfolding m f l .
qed

text \<open>
  C9, as the specification states it, fails: in \<^verbatim>\<open> 1\<close>, with a space in front, the token
  \<^verbatim>\<open>1\<close> stands at offset 1 of the string the caller supplied and carries the position 0,
  so the tokens do not tile that string.
\<close>

theorem C9_counterexample:
  "tokenize '' 1'' = [mk_token NUMBER ''1'' 0, mk_token EOF '''' 1] \<and>
   \<not> token_at '' 1'' (mk_token NUMBER ''1'' 0) \<and>
   \<not> tiled '' 1'' 0 [mk_token NUMBER ''1'' 0] \<and>
   slice '' 1'' 1 2 = ''1''"
  by code_simp

text \<open>
  C10: for every token sequence that the validator accepts, every token of the postfix
  sequence is a NUMBER, VARIABLE, CONSTANT, OPERATOR or FUNCTION token; no LEFT_PAREN,
  RIGHT_PAREN, COMMA or EOF token reaches the evaluator.
\<close>

theorem C10_postfix_kinds:
  assumes "validate_syntax tokens = None"
  shows "\<forall>t \<in> set (parse_to_postfix tokens).
           tok_type t \<in> {NUMBER, VARIABLE, CONSTANT, OPERATOR, FUNCTION}"
proof -
  from parse_to_postfix_mset [OF assms]
  have "set (parse_to_postfix tokens) = set (filter kept (before_eof tokens))"
    by (metis set_mset_mset)
  then show ?thesis by (auto simp: kept_def is_value_def)
qed

theorem C10_postfix_kinds_witness:
  "validate_syntax (tokenize ''(1+2)*sqrt(y)'') = None \<and>
   list_all (\<lambda>t. tok_type t \<in> {NUMBER, VARIABLE, CONSTANT, OPERATOR, FUNCTION})
     (parse_to_postfix (tokenize ''(1+2)*sqrt(y)''))"
proof -
  have h: "validate_syntax (tokenize ''(1+2)*sqrt(y)'') = None" by code_simp
  from C10_postfix_kinds [OF h] h show ?thesis by (simp add: list_all_iff)
qed

end
